theory Spec2Isabelle
  imports Main "HOL-Library.Word"
begin

section \<open>The interface types of hmap\_intf.h\<close>

text \<open>
  The C sources are read on a platform where \<^verbatim>\<open>unsigned int\<close> has 32 bits and
  \<^verbatim>\<open>unsigned char\<close> has 8 bits. Every \<^verbatim>\<open>unsigned int\<close> of the source
  (sizes, counts, hash values) is a 32-bit word, so \<open>+\<close> and \<open>-\<close> wrap around the
  way the C operators do.
\<close>

type_synonym byte = "8 word"
type_synonym uint = "32 word"

datatype HMAP_status_t8 =
    HMAP_STATUS_SUCCESS
  | HMAP_STATUS_INVALID_ARG
  | HMAP_STATUS_INVALID_DEF
  | HMAP_STATUS_KEY_NOT_IN_MAP
  | HMAP_STATUS_MAP_UNINITIALIZED

text \<open>
  Statuses and booleans both travel as an \<^verbatim>\<open>unsigned char\<close>; these are the values the
  two enumerations give them.
\<close>

definition status_t8 :: "HMAP_status_t8 \<Rightarrow> byte" where
  "status_t8 s =
     (case s of
        HMAP_STATUS_SUCCESS \<Rightarrow> 0
      | HMAP_STATUS_INVALID_ARG \<Rightarrow> 1
      | HMAP_STATUS_INVALID_DEF \<Rightarrow> 2
      | HMAP_STATUS_KEY_NOT_IN_MAP \<Rightarrow> 3
      | HMAP_STATUS_MAP_UNINITIALIZED \<Rightarrow> 4)"

definition bool_t8 :: "bool \<Rightarrow> byte" where
  "bool_t8 b = (if b then 1 else 0)"

type_synonym HMAP_hash_val_type = uint

text \<open>
  \<^verbatim>\<open>HMAP_hash_func_t8\<close> is an \<^verbatim>\<open>unsigned char\<close>; the enumeration names two of
  its values. The \<^verbatim>\<open>switch\<close> of \<^verbatim>\<open>HMAP_create\<close> has a \<^verbatim>\<open>default\<close> branch, so
  the other 254 values are legal inputs and the type stays a byte.
\<close>

type_synonym HMAP_hash_func_t8 = byte

definition HMAP_HASH_FUNC_SDBM :: HMAP_hash_func_t8 where
  "HMAP_HASH_FUNC_SDBM = 0"

definition HMAP_HASH_FUNC_CUSTOM :: HMAP_hash_func_t8 where
  "HMAP_HASH_FUNC_CUSTOM = 1"

text \<open>
  \<^verbatim>\<open>HMAP_anon_type\<close> is a pointer with a size. The model identifies such a blob with
  the bytes it designates; its \<^verbatim>\<open>size\<close> field is the length of the list, read as an
  \<^verbatim>\<open>unsigned int\<close>. A blob a C caller can build has fewer than \<open>2 ^ 32\<close> bytes.
\<close>

type_synonym HMAP_anon_type = "byte list"

definition anon_size :: "HMAP_anon_type \<Rightarrow> uint" where
  "anon_size a = word_of_nat (length a)"

definition valid_anon :: "HMAP_anon_type \<Rightarrow> bool" where
  "valid_anon a = (length a < 2 ^ 32)"

type_synonym HMAP_hash_func_type = "HMAP_anon_type \<Rightarrow> HMAP_hash_val_type"

text \<open>
  The allocator hooks are function pointers. The model only needs to know whether
  one was supplied: what the allocator does is the heap of entries further down.
\<close>

datatype HMAP_malloc_fptr = Malloc_hook
datatype HMAP_free_fptr = Free_hook

record HMAP_def_type =
  def_map_size :: uint
  def_hash_type :: HMAP_hash_func_t8
  def_hash :: "HMAP_hash_func_type option"
  def_malloc :: "HMAP_malloc_fptr option"
  def_free :: "HMAP_free_fptr option"

section \<open>The private types of hmap.c\<close>

text \<open>
  Entries live in memory obtained from \<^verbatim>\<open>map->malloc\<close>. An entry pointer is an
  address; \<open>None\<close> is \<^verbatim>\<open>HMAP_INVALID_POINTER\<close>.
\<close>

type_synonym addr = nat

record hmap_entry_type =
  entry_data :: HMAP_anon_type
  entry_key :: HMAP_anon_type
  entry_key_hash :: HMAP_hash_val_type
  entry_next :: "addr option"
  entry_previous :: "addr option"
  entry_size :: uint

text \<open>
  \<open>map_heap\<close> is the memory the map's allocator has handed out for entries: cell \<open>a\<close>
  holds the entry allocated at address \<open>a\<close>, and \<open>None\<close> once that entry has been
  passed to \<^verbatim>\<open>map->free\<close>. Every allocation succeeds (the source never looks at what
  \<^verbatim>\<open>malloc\<close> returns) and gets an address that was not in use before, so that a
  pointer to a freed entry stays recognisable: going through one is undefined in C,
  whatever the allocator has done with the memory since.
\<close>

record hmap_map_type =
  map_buckets :: "addr option list"
  map_buckets_len :: uint
  map_data_size :: uint
  map_entry_count :: uint
  map_key_size :: uint
  map_size :: uint
  map_hash :: HMAP_hash_func_type
  map_free :: HMAP_free_fptr
  map_malloc :: HMAP_malloc_fptr
  map_heap :: "hmap_entry_type option list"

record HMAP_obj_type =
  obj_data :: "hmap_map_type option"

text \<open>
  The three \<^verbatim>\<open>sizeof\<close> values the size accounting adds, as an LP64 compiler lays the
  structs out. No proof below looks at the numbers, except the closed examples.
\<close>

definition sizeof_entry :: uint where
  "sizeof_entry = 64"

definition sizeof_map :: uint where
  "sizeof_map = 56"

definition sizeof_bucket :: uint where
  "sizeof_bucket = 8"

section \<open>Undefined behaviour as a value\<close>

text \<open>
  Where the C code divides by zero, writes past an array or goes through a pointer
  to freed memory, the model stops with a fault. A call that never returns is \<open>None\<close>.
\<close>

datatype fault =
    Div_by_zero
  | Entries_overrun
  | Buckets_overrun
  | Dangling_pointer
  | Null_pointer

type_synonym 'a result = "(fault + 'a) option"

section \<open>The static procedures\<close>

subsection \<open>anon\_data\_match\<close>

function anon_data_match_loop ::
  "HMAP_anon_type \<Rightarrow> HMAP_anon_type \<Rightarrow> nat \<Rightarrow> bool" where
  "anon_data_match_loop data_1 data_2 i =
     (if i < unat (anon_size data_1)
      then (if data_1 ! i \<noteq> data_2 ! i then False
            else anon_data_match_loop data_1 data_2 (Suc i))
      else True)"
  by pat_completeness auto
termination
  by (relation "measure (\<lambda>(data_1, data_2, i). unat (anon_size data_1) - i)") auto

declare anon_data_match_loop.simps [simp del]

definition anon_data_match :: "HMAP_anon_type \<Rightarrow> HMAP_anon_type \<Rightarrow> bool" where
  "anon_data_match data_1 data_2 =
     (if anon_size data_1 \<noteq> anon_size data_2 then False
      else anon_data_match_loop data_1 data_2 0)"

subsection \<open>copy\_anon\_data\<close>

text \<open>
  The procedure sets the destination's size to the source's and overwrites that many
  bytes, so what the destination designates afterwards does not depend on what it held
  before. \<open>copy_anon_data\<close> returns that blob; \<open>written\<close> is the part of the
  destination filled so far. The destination must have room for the bytes: the C code
  cannot check it, and the model takes it for granted.
\<close>

function copy_anon_data_loop ::
  "HMAP_anon_type \<Rightarrow> nat \<Rightarrow> HMAP_anon_type \<Rightarrow> HMAP_anon_type" where
  "copy_anon_data_loop source i written =
     (if i < unat (anon_size source)
      then copy_anon_data_loop source (Suc i) (written @ [source ! i])
      else written)"
  by pat_completeness auto
termination
  by (relation "measure (\<lambda>(source, i, written). unat (anon_size source) - i)") auto

declare copy_anon_data_loop.simps [simp del]

definition copy_anon_data :: "HMAP_anon_type \<Rightarrow> HMAP_anon_type" where
  "copy_anon_data source = copy_anon_data_loop source 0 []"

subsection \<open>hash\_sdbm\<close>

function hash_sdbm_loop :: "HMAP_anon_type \<Rightarrow> nat \<Rightarrow> HMAP_hash_val_type \<Rightarrow> HMAP_hash_val_type" where
  "hash_sdbm_loop key i hash =
     (if i < unat (anon_size key)
      then hash_sdbm_loop key (Suc i)
             (push_bit 16 hash + push_bit 6 hash - hash + ucast (key ! i))
      else hash)"
  by pat_completeness auto
termination
  by (relation "measure (\<lambda>(key, i, hash). unat (anon_size key) - i)") auto

declare hash_sdbm_loop.simps [simp del]

definition hash_sdbm :: HMAP_hash_func_type where
  "hash_sdbm key = hash_sdbm_loop key 0 0"

text \<open>
  The recurrence as the specification words it: start from zero and fold every byte
  of the input, in order, into the accumulator.
\<close>

definition sdbm_step :: "HMAP_hash_val_type \<Rightarrow> byte \<Rightarrow> HMAP_hash_val_type" where
  "sdbm_step accumulator b =
     push_bit 16 accumulator + push_bit 6 accumulator - accumulator + ucast b"

definition sdbm_recurrence :: "byte list \<Rightarrow> HMAP_hash_val_type" where
  "sdbm_recurrence bs = foldl sdbm_step 0 bs"

subsection \<open>Reading and writing entries\<close>

text \<open>
  \<open>entry_at\<close> is \<^verbatim>\<open>*entry\<close>: the entry behind a pointer, or \<open>None\<close> when the
  memory has been freed. \<open>entry_store\<close> writes through a pointer to a live entry.
\<close>

definition entry_at :: "hmap_map_type \<Rightarrow> addr \<Rightarrow> hmap_entry_type option" where
  "entry_at hmap a = (if a < length (map_heap hmap) then map_heap hmap ! a else None)"

definition entry_store :: "hmap_map_type \<Rightarrow> addr \<Rightarrow> hmap_entry_type \<Rightarrow> hmap_map_type" where
  "entry_store hmap a entry = hmap\<lparr>map_heap := (map_heap hmap)[a := Some entry]\<rparr>"

subsection \<open>create\_entry\<close>

text \<open>
  The new entry gets the next unused address. Its data buffer is allocated with the
  size of \<open>data\<close> and not written (\<^verbatim>\<open>HMAP_set_data\<close> fills it afterwards); the
  model holds zero bytes there.
\<close>

definition create_entry ::
  "hmap_map_type \<Rightarrow> HMAP_anon_type \<Rightarrow> HMAP_anon_type \<Rightarrow> hmap_map_type \<times> addr" where
  "create_entry hmap key data =
     (let entry = \<lparr>entry_data = replicate (unat (anon_size data)) 0,
                   entry_key = copy_anon_data key,
                   entry_key_hash = map_hash hmap key,
                   entry_next = None,
                   entry_previous = None,
                   entry_size = anon_size data + anon_size key + sizeof_entry\<rparr>
      in (hmap\<lparr>map_entry_count := map_entry_count hmap + 1,
                map_data_size := map_data_size hmap + anon_size data,
                map_key_size := map_key_size hmap + anon_size key,
                map_size := map_size hmap + entry_size entry,
                map_heap := map_heap hmap @ [Some entry]\<rparr>,
          length (map_heap hmap)))"

subsection \<open>destroy\_entry\<close>

definition destroy_entry :: "hmap_map_type \<Rightarrow> addr \<Rightarrow> fault + hmap_map_type" where
  "destroy_entry hmap a =
     (case entry_at hmap a of
        None \<Rightarrow> Inl Dangling_pointer
      | Some entry \<Rightarrow>
          Inr (hmap\<lparr>map_entry_count := map_entry_count hmap - 1,
                    map_data_size := map_data_size hmap - anon_size (entry_data entry),
                    map_key_size := map_key_size hmap - anon_size (entry_key entry),
                    map_size := map_size hmap - entry_size entry,
                    map_heap := (map_heap hmap)[a := None]\<rparr>))"

subsection \<open>get\_bucket\_by\_hash\<close>

text \<open>
  The procedure returns the address of a bucket; the model returns its index. The C
  remainder by zero is undefined.
\<close>

definition get_bucket_by_hash :: "hmap_map_type \<Rightarrow> HMAP_hash_val_type \<Rightarrow> fault + nat" where
  "get_bucket_by_hash hmap key_hash =
     (if map_buckets_len hmap = 0 then Inl Div_by_zero
      else (let index = unat (key_hash mod map_buckets_len hmap)
            in if index < length (map_buckets hmap) then Inr index
               else Inl Buckets_overrun))"

subsection \<open>get\_entry\_by\_hash\<close>

text \<open>
  \<open>entries\<close> is the caller's array, as long as the caller declared it, and
  \<open>entries_len\<close> counts the slots written. The \<^verbatim>\<open>while\<close> loop follows
  \<^verbatim>\<open>next\<close> pointers for as long as there are any, so it is a partial function.
\<close>

partial_function (option) get_entry_by_hash_loop ::
  "hmap_map_type \<Rightarrow> HMAP_hash_val_type \<Rightarrow> addr option \<Rightarrow> addr option list \<Rightarrow> nat
     \<Rightarrow> (addr option list \<times> nat) result" where
  "get_entry_by_hash_loop hmap key_hash entry entries entries_len =
     (case entry of
        None \<Rightarrow> Some (Inr (entries, entries_len))
      | Some a \<Rightarrow>
          (case entry_at hmap a of
             None \<Rightarrow> Some (Inl Dangling_pointer)
           | Some e \<Rightarrow>
               if entry_key_hash e = key_hash
               then (if entries_len < length entries
                     then get_entry_by_hash_loop hmap key_hash (entry_next e)
                            (entries[entries_len := Some a]) (Suc entries_len)
                     else Some (Inl Entries_overrun))
               else get_entry_by_hash_loop hmap key_hash (entry_next e) entries entries_len))"

declare get_entry_by_hash_loop.simps [code]

text \<open>
  The parameter \<open>entries_len\<close> is documented as the capacity of the array; the procedure
  overwrites it with zero before the loop and uses it as the counter.
\<close>

definition get_entry_by_hash ::
  "hmap_map_type \<Rightarrow> HMAP_hash_val_type \<Rightarrow> addr option list \<Rightarrow> nat
     \<Rightarrow> (addr option list \<times> nat) result" where
  "get_entry_by_hash hmap key_hash entries entries_len =
     (case get_bucket_by_hash hmap key_hash of
        Inl f \<Rightarrow> Some (Inl f)
      | Inr bucket \<Rightarrow>
          get_entry_by_hash_loop hmap key_hash (map_buckets hmap ! bucket) entries 0)"

subsection \<open>get\_entry\_by\_key\<close>

definition MAX_COLLISIONS :: nat where
  "MAX_COLLISIONS = 5"

function get_entry_by_key_loop ::
  "hmap_map_type \<Rightarrow> HMAP_anon_type \<Rightarrow> addr option list \<Rightarrow> nat \<Rightarrow> nat
     \<Rightarrow> fault + addr option" where
  "get_entry_by_key_loop hmap key entries entries_count i =
     (if i < entries_count
      then (if i < length entries
            then (case entries ! i of
                    None \<Rightarrow> Inl Dangling_pointer
                  | Some a \<Rightarrow>
                      (case entry_at hmap a of
                         None \<Rightarrow> Inl Dangling_pointer
                       | Some e \<Rightarrow>
                           if anon_data_match (entry_key e) key then Inr (Some a)
                           else get_entry_by_key_loop hmap key entries entries_count (Suc i)))
            else Inl Entries_overrun)
      else Inr None)"
  by pat_completeness auto
termination
  by (relation "measure (\<lambda>(hmap, key, entries, entries_count, i). entries_count - i)") auto

declare get_entry_by_key_loop.simps [simp del]

definition get_entry_by_key :: "hmap_map_type \<Rightarrow> HMAP_anon_type \<Rightarrow> addr option result" where
  "get_entry_by_key hmap key =
     (let key_hash = map_hash hmap key
      in case get_entry_by_hash hmap key_hash (replicate MAX_COLLISIONS None) MAX_COLLISIONS of
           None \<Rightarrow> None
         | Some (Inl f) \<Rightarrow> Some (Inl f)
         | Some (Inr (entries, entries_count)) \<Rightarrow>
             Some (get_entry_by_key_loop hmap key entries entries_count 0))"

section \<open>The public procedures\<close>

text \<open>
  A pointer argument is an option: \<open>None\<close> is \<^verbatim>\<open>HMAP_INVALID_POINTER\<close>, \<open>Some x\<close>
  points to an object holding \<open>x\<close>. A procedure that writes through a pointer returns
  what the pointer's target holds afterwards, next to its status.
\<close>

subsection \<open>HMAP\_create\<close>

text \<open>
  \<open>new_map\<close> is the private structure as the procedure has filled it when it reaches
  the \<^verbatim>\<open>switch\<close>, with the hash function the \<^verbatim>\<open>switch\<close> then chooses. When the
  custom hash function is missing the procedure returns after it has reset the out
  object.
\<close>

definition new_map ::
  "HMAP_def_type \<Rightarrow> HMAP_malloc_fptr \<Rightarrow> HMAP_free_fptr \<Rightarrow> HMAP_hash_func_type \<Rightarrow> hmap_map_type" where
  "new_map d mallocf freef hashf =
     \<lparr>map_buckets = replicate (unat (def_map_size d)) None,
      map_buckets_len = def_map_size d,
      map_data_size = 0,
      map_entry_count = 0,
      map_key_size = 0,
      map_size = sizeof_map + sizeof_bucket * def_map_size d,
      map_hash = hashf,
      map_free = freef,
      map_malloc = mallocf,
      map_heap = []\<rparr>"

definition HMAP_create ::
  "HMAP_def_type option \<Rightarrow> HMAP_obj_type option \<Rightarrow> HMAP_status_t8 \<times> HMAP_obj_type option" where
  "HMAP_create hmap_def out_obj =
     (case (hmap_def, out_obj) of
        (Some d, Some out) \<Rightarrow>
          (case (def_malloc d, def_free d) of
             (Some mallocf, Some freef) \<Rightarrow>
               if def_hash_type d = HMAP_HASH_FUNC_CUSTOM
               then (case def_hash d of
                       None \<Rightarrow> (HMAP_STATUS_INVALID_DEF, Some (out\<lparr>obj_data := None\<rparr>))
                     | Some hashf \<Rightarrow>
                         (HMAP_STATUS_SUCCESS,
                          Some (out\<lparr>obj_data := Some (new_map d mallocf freef hashf)\<rparr>)))
               else (HMAP_STATUS_SUCCESS,
                     Some (out\<lparr>obj_data := Some (new_map d mallocf freef hash_sdbm)\<rparr>))
           | _ \<Rightarrow> (HMAP_STATUS_INVALID_DEF, out_obj))
      | _ \<Rightarrow> (HMAP_STATUS_INVALID_ARG, out_obj))"

subsection \<open>HMAP\_destroy\<close>

definition live_cells :: "hmap_map_type \<Rightarrow> nat" where
  "live_cells hmap = length (filter (\<lambda>c. c \<noteq> None) (map_heap hmap))"

lemma filter_update_None_less:
  "a < length xs \<Longrightarrow> xs ! a \<noteq> None \<Longrightarrow>
   length (filter (\<lambda>c. c \<noteq> None) (xs[a := None])) < length (filter (\<lambda>c. c \<noteq> None) xs)"
proof (induction xs arbitrary: a)
  case Nil
  then show ?case by simp
next
  case (Cons x xs)
  show ?case
  proof (cases a)
    case 0
    with Cons.prems show ?thesis by simp
  next
    case (Suc b)
    with Cons.prems have "b < length xs" "xs ! b \<noteq> None" by simp_all
    from Cons.IH [OF this] Suc show ?thesis by simp
  qed
qed

lemma destroy_entry_live_cells:
  "destroy_entry hmap a = Inr hmap' \<Longrightarrow> live_cells hmap' < live_cells hmap"
proof -
  assume destroyed: "destroy_entry hmap a = Inr hmap'"
  then obtain entry where live: "entry_at hmap a = Some entry"
    and heap: "map_heap hmap' = (map_heap hmap)[a := None]"
    by (auto simp: destroy_entry_def split: option.splits)
  from live have "a < length (map_heap hmap)" and "map_heap hmap ! a \<noteq> None"
    by (auto simp: entry_at_def split: if_splits)
  from filter_update_None_less [OF this] show ?thesis
    unfolding live_cells_def heap .
qed

lemma destroy_entry_buckets_len:
  "destroy_entry hmap a = Inr hmap' \<Longrightarrow>
   map_buckets_len hmap' = map_buckets_len hmap \<and> map_buckets hmap' = map_buckets hmap"
  by (auto simp: destroy_entry_def split: option.splits)

text \<open>The inner \<^verbatim>\<open>while\<close> loop: pop the head of bucket \<open>i\<close> and destroy it.\<close>

function destroy_bucket_loop :: "hmap_map_type \<Rightarrow> nat \<Rightarrow> fault + hmap_map_type" where
  "destroy_bucket_loop hmap i =
     (if i < length (map_buckets hmap)
      then (case map_buckets hmap ! i of
              None \<Rightarrow> Inr hmap
            | Some a \<Rightarrow>
                (case entry_at hmap a of
                   None \<Rightarrow> Inl Dangling_pointer
                 | Some entry \<Rightarrow>
                     (case destroy_entry
                             (hmap\<lparr>map_buckets := (map_buckets hmap)[i := entry_next entry]\<rparr>) a of
                        Inl f \<Rightarrow> Inl f
                      | Inr hmap' \<Rightarrow> destroy_bucket_loop hmap' i)))
      else Inl Buckets_overrun)"
  by pat_completeness auto
termination
proof (relation "measure (\<lambda>(hmap, i). live_cells hmap)")
  show "wf (measure (\<lambda>(hmap, i). live_cells hmap))" by simp
next
  fix hmap :: hmap_map_type and i a entry hmap'
  assume "destroy_entry (hmap\<lparr>map_buckets := (map_buckets hmap)[i := entry_next entry]\<rparr>) a
            = Inr hmap'"
  from destroy_entry_live_cells [OF this]
  show "((hmap', i), (hmap, i)) \<in> measure (\<lambda>(hmap, i). live_cells hmap)"
    by (simp add: live_cells_def)
qed

declare destroy_bucket_loop.simps [simp del]

lemma destroy_bucket_loop_buckets_len:
  "destroy_bucket_loop hmap i = Inr hmap' \<Longrightarrow> map_buckets_len hmap' = map_buckets_len hmap"
proof (induction hmap i rule: destroy_bucket_loop.induct)
  case (1 hmap i)
  show ?case
  proof (cases "i < length (map_buckets hmap)")
    case False
    with "1.prems" show ?thesis by (simp add: destroy_bucket_loop.simps)
  next
    case in_range: True
    show ?thesis
    proof (cases "map_buckets hmap ! i")
      case None
      with in_range "1.prems" show ?thesis by (simp add: destroy_bucket_loop.simps)
    next
      case (Some a)
      with in_range "1.prems" obtain entry hmap1 where
        live: "entry_at hmap a = Some entry" and
        destroyed: "destroy_entry
                      (hmap\<lparr>map_buckets := (map_buckets hmap)[i := entry_next entry]\<rparr>) a
                    = Inr hmap1" and
        rest: "destroy_bucket_loop hmap1 i = Inr hmap'"
        by (subst (asm) destroy_bucket_loop.simps) (auto split: option.splits sum.splits)
      from "1.IH" [OF in_range Some live destroyed rest] destroy_entry_buckets_len [OF destroyed]
      show ?thesis by simp
    qed
  qed
qed

text \<open>The outer \<^verbatim>\<open>for\<close> loop over the buckets.\<close>

function HMAP_destroy_loop :: "hmap_map_type \<Rightarrow> nat \<Rightarrow> fault + hmap_map_type" where
  "HMAP_destroy_loop hmap i =
     (if i < unat (map_buckets_len hmap)
      then (case destroy_bucket_loop hmap i of
              Inl f \<Rightarrow> Inl f
            | Inr hmap' \<Rightarrow> HMAP_destroy_loop hmap' (Suc i))
      else Inr hmap)"
  by pat_completeness auto
termination HMAP_destroy_loop
proof (relation "measure (\<lambda>(hmap, i). unat (map_buckets_len hmap) - i)")
  show "wf (measure (\<lambda>(hmap, i). unat (map_buckets_len hmap) - i))" by simp
next
  fix hmap :: hmap_map_type and i hmap'
  assume "i < unat (map_buckets_len hmap)" and "destroy_bucket_loop hmap i = Inr hmap'"
  then show "((hmap', Suc i), (hmap, i)) \<in> measure (\<lambda>(hmap, i). unat (map_buckets_len hmap) - i)"
    by (simp add: destroy_bucket_loop_buckets_len)
qed

declare HMAP_destroy_loop.simps [simp del]

definition HMAP_destroy ::
  "HMAP_obj_type option \<Rightarrow> fault + HMAP_status_t8 \<times> HMAP_obj_type option" where
  "HMAP_destroy obj =
     (case obj of
        None \<Rightarrow> Inr (HMAP_STATUS_INVALID_ARG, obj)
      | Some ob \<Rightarrow>
          (case obj_data ob of
             None \<Rightarrow> Inr (HMAP_STATUS_MAP_UNINITIALIZED, obj)
           | Some hmap \<Rightarrow>
               (case HMAP_destroy_loop hmap 0 of
                  Inl f \<Rightarrow> Inl f
                | Inr hmap' \<Rightarrow> Inr (HMAP_STATUS_SUCCESS, Some (ob\<lparr>obj_data := None\<rparr>)))))"

subsection \<open>HMAP\_get\_data\<close>

text \<open>
  \<open>data\<close> is the caller's blob; on success the entry's data is copied into it.
\<close>

definition HMAP_get_data ::
  "HMAP_obj_type option \<Rightarrow> HMAP_anon_type option \<Rightarrow> HMAP_anon_type option
     \<Rightarrow> (HMAP_status_t8 \<times> HMAP_anon_type option) result" where
  "HMAP_get_data obj key data =
     (case (obj, key, data) of
        (Some ob, Some k, Some d) \<Rightarrow>
          (case obj_data ob of
             None \<Rightarrow> Some (Inr (HMAP_STATUS_MAP_UNINITIALIZED, data))
           | Some hmap \<Rightarrow>
               (case get_entry_by_key hmap k of
                  None \<Rightarrow> None
                | Some (Inl f) \<Rightarrow> Some (Inl f)
                | Some (Inr None) \<Rightarrow> Some (Inr (HMAP_STATUS_KEY_NOT_IN_MAP, data))
                | Some (Inr (Some a)) \<Rightarrow>
                    (case entry_at hmap a of
                       None \<Rightarrow> Some (Inl Dangling_pointer)
                     | Some entry \<Rightarrow>
                         Some (Inr (HMAP_STATUS_SUCCESS,
                                    Some (copy_anon_data (entry_data entry)))))))
      | _ \<Rightarrow> Some (Inr (HMAP_STATUS_INVALID_ARG, data)))"

subsection \<open>HMAP\_get\_entry\_count, HMAP\_get\_hash, HMAP\_get\_size\<close>

text \<open>
  \<^verbatim>\<open>HMAP_get_entry_count\<close> and \<^verbatim>\<open>HMAP_get_size\<close> write through their out pointer
  without testing it.
\<close>

definition HMAP_get_entry_count ::
  "HMAP_obj_type option \<Rightarrow> uint option \<Rightarrow> fault + HMAP_status_t8 \<times> uint option" where
  "HMAP_get_entry_count obj entry_count =
     (case obj of
        None \<Rightarrow> Inr (HMAP_STATUS_INVALID_ARG, entry_count)
      | Some ob \<Rightarrow>
          (case obj_data ob of
             None \<Rightarrow> Inr (HMAP_STATUS_MAP_UNINITIALIZED, entry_count)
           | Some hmap \<Rightarrow>
               (case entry_count of
                  None \<Rightarrow> Inl Null_pointer
                | Some _ \<Rightarrow> Inr (HMAP_STATUS_SUCCESS, Some (map_entry_count hmap)))))"

definition HMAP_get_hash ::
  "HMAP_obj_type option \<Rightarrow> HMAP_anon_type option \<Rightarrow> HMAP_hash_val_type option
     \<Rightarrow> HMAP_status_t8 \<times> HMAP_hash_val_type option" where
  "HMAP_get_hash obj data hash =
     (case (obj, data, hash) of
        (Some ob, Some d, Some h) \<Rightarrow>
          (case obj_data ob of
             None \<Rightarrow> (HMAP_STATUS_MAP_UNINITIALIZED, hash)
           | Some hmap \<Rightarrow> (HMAP_STATUS_SUCCESS, Some (map_hash hmap d)))
      | _ \<Rightarrow> (HMAP_STATUS_INVALID_ARG, hash))"

definition HMAP_get_size ::
  "HMAP_obj_type option \<Rightarrow> uint option \<Rightarrow> fault + HMAP_status_t8 \<times> uint option" where
  "HMAP_get_size obj size_out =
     (case obj of
        None \<Rightarrow> Inr (HMAP_STATUS_INVALID_ARG, size_out)
      | Some ob \<Rightarrow>
          (case obj_data ob of
             None \<Rightarrow> Inr (HMAP_STATUS_MAP_UNINITIALIZED, size_out)
           | Some hmap \<Rightarrow>
               (case size_out of
                  None \<Rightarrow> Inl Null_pointer
                | Some _ \<Rightarrow> Inr (HMAP_STATUS_SUCCESS, Some (map_size hmap)))))"

subsection \<open>HMAP\_key\_in\_map\<close>

text \<open>\<^verbatim>\<open>HMAP_bool_t8\<close> is \<open>bool\<close>: \<open>False\<close> for \<^verbatim>\<open>HMAP_BOOL_FALSE\<close>.\<close>

definition HMAP_key_in_map ::
  "HMAP_obj_type option \<Rightarrow> HMAP_anon_type option \<Rightarrow> bool result" where
  "HMAP_key_in_map obj key =
     (case (obj, key) of
        (Some ob, Some k) \<Rightarrow>
          (case obj_data ob of
             None \<Rightarrow> Some (Inr False)
           | Some hmap \<Rightarrow>
               (case get_entry_by_key hmap k of
                  None \<Rightarrow> None
                | Some (Inl f) \<Rightarrow> Some (Inl f)
                | Some (Inr entry) \<Rightarrow> Some (Inr (entry \<noteq> None))))
      | _ \<Rightarrow> Some (Inr False))"

subsection \<open>HMAP\_remove\_entry\<close>

text \<open>
  \<open>unlink_entry\<close> is the block that takes the entry out of its bucket's list: through
  the previous entry when the entry has one, through the bucket otherwise.
\<close>

definition unlink_entry :: "hmap_map_type \<Rightarrow> addr \<Rightarrow> fault + hmap_map_type" where
  "unlink_entry hmap a =
     (case entry_at hmap a of
        None \<Rightarrow> Inl Dangling_pointer
      | Some entry \<Rightarrow>
          (case entry_previous entry of
             Some p \<Rightarrow>
               (case entry_at hmap p of
                  None \<Rightarrow> Inl Dangling_pointer
                | Some prev_entry \<Rightarrow>
                    (let hmap1 = entry_store hmap p (prev_entry\<lparr>entry_next := entry_next entry\<rparr>)
                     in case entry_next entry of
                          None \<Rightarrow> Inr hmap1
                        | Some n \<Rightarrow>
                            (case entry_at hmap1 n of
                               None \<Rightarrow> Inl Dangling_pointer
                             | Some next_entry \<Rightarrow>
                                 Inr (entry_store hmap1 n
                                        (next_entry\<lparr>entry_previous := entry_previous entry\<rparr>)))))
           | None \<Rightarrow>
               (case get_bucket_by_hash hmap (entry_key_hash entry) of
                  Inl f \<Rightarrow> Inl f
                | Inr bucket \<Rightarrow>
                    Inr (hmap\<lparr>map_buckets := (map_buckets hmap)[bucket := entry_next entry]\<rparr>))))"

definition HMAP_remove_entry ::
  "HMAP_obj_type option \<Rightarrow> HMAP_anon_type option
     \<Rightarrow> (HMAP_status_t8 \<times> HMAP_obj_type option) result" where
  "HMAP_remove_entry obj key =
     (case (obj, key) of
        (Some ob, Some k) \<Rightarrow>
          (case obj_data ob of
             None \<Rightarrow> Some (Inr (HMAP_STATUS_MAP_UNINITIALIZED, obj))
           | Some hmap \<Rightarrow>
               (case get_entry_by_key hmap k of
                  None \<Rightarrow> None
                | Some (Inl f) \<Rightarrow> Some (Inl f)
                | Some (Inr None) \<Rightarrow> Some (Inr (HMAP_STATUS_SUCCESS, obj))
                | Some (Inr (Some a)) \<Rightarrow>
                    (case unlink_entry hmap a of
                       Inl f \<Rightarrow> Some (Inl f)
                     | Inr hmap1 \<Rightarrow>
                         (case destroy_entry hmap1 a of
                            Inl f \<Rightarrow> Some (Inl f)
                          | Inr hmap2 \<Rightarrow>
                              Some (Inr (HMAP_STATUS_SUCCESS,
                                         Some (ob\<lparr>obj_data := Some hmap2\<rparr>)))))))
      | _ \<Rightarrow> Some (Inr (HMAP_STATUS_INVALID_ARG, obj)))"

subsection \<open>HMAP\_set\_data\<close>

text \<open>
  \<open>push_entry\<close> is the block that creates the entry and pushes it on top of its
  bucket. \<open>set_entry_data\<close> is the rest of the procedure: the size update and the copy.
  Freeing the old data buffer and allocating one of the new size leaves no trace in
  the model, where an entry holds its bytes; the copy fills the buffer whole.
\<close>

definition push_entry ::
  "hmap_map_type \<Rightarrow> HMAP_anon_type \<Rightarrow> HMAP_anon_type \<Rightarrow> fault + hmap_map_type \<times> addr" where
  "push_entry hmap key data =
     (case create_entry hmap key data of
        (hmap1, a) \<Rightarrow>
          (case entry_at hmap1 a of
             None \<Rightarrow> Inl Dangling_pointer
           | Some entry \<Rightarrow>
               (case get_bucket_by_hash hmap1 (entry_key_hash entry) of
                  Inl f \<Rightarrow> Inl f
                | Inr bucket \<Rightarrow>
                    (let head = map_buckets hmap1 ! bucket;
                         hmap2 = entry_store hmap1 a (entry\<lparr>entry_next := head\<rparr>)
                     in case head of
                          None \<Rightarrow>
                            Inr (hmap2\<lparr>map_buckets := (map_buckets hmap2)[bucket := Some a]\<rparr>, a)
                        | Some n \<Rightarrow>
                            (case entry_at hmap2 n of
                               None \<Rightarrow> Inl Dangling_pointer
                             | Some next_entry \<Rightarrow>
                                 (let hmap3 = entry_store hmap2 n
                                                (next_entry\<lparr>entry_previous := Some a\<rparr>)
                                  in Inr (hmap3\<lparr>map_buckets :=
                                                  (map_buckets hmap3)[bucket := Some a]\<rparr>, a)))))))"

definition set_entry_data ::
  "hmap_map_type \<Rightarrow> addr \<Rightarrow> HMAP_anon_type \<Rightarrow> fault + hmap_map_type" where
  "set_entry_data hmap a data =
     (case entry_at hmap a of
        None \<Rightarrow> Inl Dangling_pointer
      | Some entry \<Rightarrow>
          (let hmap1 =
                 (if anon_size (entry_data entry) \<noteq> anon_size data
                  then hmap\<lparr>map_data_size :=
                               map_data_size hmap + (anon_size data - anon_size (entry_data entry)),
                             map_size :=
                               map_size hmap + (anon_size data - anon_size (entry_data entry))\<rparr>
                  else hmap)
           in Inr (entry_store hmap1 a (entry\<lparr>entry_data := copy_anon_data data\<rparr>))))"

definition HMAP_set_data ::
  "HMAP_obj_type option \<Rightarrow> HMAP_anon_type option \<Rightarrow> HMAP_anon_type option
     \<Rightarrow> (HMAP_status_t8 \<times> HMAP_obj_type option) result" where
  "HMAP_set_data obj key data =
     (case (obj, key, data) of
        (Some ob, Some k, Some d) \<Rightarrow>
          (case obj_data ob of
             None \<Rightarrow> Some (Inr (HMAP_STATUS_MAP_UNINITIALIZED, obj))
           | Some hmap \<Rightarrow>
               (case get_entry_by_key hmap k of
                  None \<Rightarrow> None
                | Some (Inl f) \<Rightarrow> Some (Inl f)
                | Some (Inr found) \<Rightarrow>
                    (case (case found of
                             None \<Rightarrow> push_entry hmap k d
                           | Some a \<Rightarrow> Inr (hmap, a)) of
                       Inl f \<Rightarrow> Some (Inl f)
                     | Inr (hmap1, a) \<Rightarrow>
                         (case set_entry_data hmap1 a d of
                            Inl f \<Rightarrow> Some (Inl f)
                          | Inr hmap2 \<Rightarrow>
                              Some (Inr (HMAP_STATUS_SUCCESS,
                                         Some (ob\<lparr>obj_data := Some hmap2\<rparr>)))))))
      | _ \<Rightarrow> Some (Inr (HMAP_STATUS_INVALID_ARG, obj)))"

section \<open>Sequences of calls\<close>

text \<open>
  A caller's script of \<^verbatim>\<open>HMAP_set_data\<close> and \<^verbatim>\<open>HMAP_remove_entry\<close> calls on one
  map object. The script stops where a call runs into undefined behaviour.
\<close>

datatype call =
    Set_data HMAP_anon_type HMAP_anon_type
  | Remove_entry HMAP_anon_type

fun do_call ::
  "HMAP_obj_type option \<Rightarrow> call \<Rightarrow> (HMAP_status_t8 \<times> HMAP_obj_type option) result" where
  "do_call obj (Set_data key data) = HMAP_set_data obj (Some key) (Some data)"
| "do_call obj (Remove_entry key) = HMAP_remove_entry obj (Some key)"

fun do_calls :: "HMAP_obj_type option \<Rightarrow> call list \<Rightarrow> HMAP_obj_type option result" where
  "do_calls obj [] = Some (Inr obj)"
| "do_calls obj (c # cs) =
     (case do_call obj c of
        None \<Rightarrow> None
      | Some (Inl f) \<Rightarrow> Some (Inl f)
      | Some (Inr (status, obj')) \<Rightarrow> do_calls obj' cs)"

text \<open>A definition with both allocator hooks, and the object \<^verbatim>\<open>HMAP_create\<close> makes of it.\<close>

definition sdbm_def :: "uint \<Rightarrow> HMAP_def_type" where
  "sdbm_def n =
     \<lparr>def_map_size = n, def_hash_type = HMAP_HASH_FUNC_SDBM, def_hash = None,
      def_malloc = Some Malloc_hook, def_free = Some Free_hook\<rparr>"

definition blank_obj :: HMAP_obj_type where
  "blank_obj = \<lparr>obj_data = None\<rparr>"

definition created :: "HMAP_def_type \<Rightarrow> HMAP_obj_type option" where
  "created d = snd (HMAP_create (Some d) (Some blank_obj))"

text \<open>The fault a call ran into, if it ran into one.\<close>

definition faulted :: "'a result \<Rightarrow> fault option" where
  "faulted r = (case r of Some (Inl f) \<Rightarrow> Some f | _ \<Rightarrow> None)"

text \<open>
  Seven distinct eight-byte keys with one SDBM hash value: \<open>aaazzaaa\<close>, \<open>bdbuubdb\<close>,
  \<open>cgcppcgc\<close> and so on, each the one before plus the vector \<open>(1, 3, 1, -5, -5, 1, 3, 1)\<close>,
  whose hash contribution is a multiple of \<open>2 ^ 32\<close>.
\<close>

definition colliding_key :: "nat \<Rightarrow> HMAP_anon_type" where
  "colliding_key t =
     [97 + of_nat t, 97 + 3 * of_nat t, 97 + of_nat t, 122 - 5 * of_nat t,
      122 - 5 * of_nat t, 97 + of_nat t, 97 + 3 * of_nat t, 97 + of_nat t]"

definition colliding_sets :: "nat \<Rightarrow> call list" where
  "colliding_sets n = map (\<lambda>t. Set_data (colliding_key t) [of_nat t]) [0..<n]"

text \<open>
  What a lookup reads of a map: the buckets, the hash function, and of every entry its
  key, its hash and its \<^verbatim>\<open>next\<close> pointer.
\<close>

definition same_links :: "hmap_map_type \<Rightarrow> hmap_map_type \<Rightarrow> bool" where
  "same_links hmap hmap' \<longleftrightarrow>
     map_buckets hmap' = map_buckets hmap \<and> map_buckets_len hmap' = map_buckets_len hmap
     \<and> map_hash hmap' = map_hash hmap
     \<and> (\<forall>a. map_option (\<lambda>e. (entry_key e, entry_key_hash e, entry_next e)) (entry_at hmap' a)
            = map_option (\<lambda>e. (entry_key e, entry_key_hash e, entry_next e)) (entry_at hmap a))"

text \<open>The map of eight buckets that holds the key \<open>a\<close> with the value \<open>1\<close>.\<close>

definition example_map :: hmap_map_type where
  "example_map =
     \<lparr>map_buckets = [None, Some 0, None, None, None, None, None, None],
      map_buckets_len = 8, map_data_size = 1, map_entry_count = 1, map_key_size = 1,
      map_size = 186, map_hash = hash_sdbm, map_free = Free_hook, map_malloc = Malloc_hook,
      map_heap = [Some \<lparr>entry_data = [49], entry_key = [97], entry_key_hash = 97,
                         entry_next = None, entry_previous = None, entry_size = 66\<rparr>]\<rparr>"

section \<open>Well-formed maps\<close>

text \<open>
  The shape of the heap that the procedures keep up, as far as they do. Bucket \<open>i\<close>
  points at the first address of a list \<open>as\<close> of distinct live entries; each entry's
  \<^verbatim>\<open>next\<close> is the following address of the list, its hash belongs to bucket \<open>i\<close>, and
  its \<^verbatim>\<open>previous\<close> is the address before it. The first entry's \<^verbatim>\<open>previous\<close> is
  either \<^verbatim>\<open>HMAP_INVALID_POINTER\<close> or the address of a freed entry: that is what
  \<^verbatim>\<open>HMAP_remove_entry\<close> leaves behind when it removes the head of a bucket.
\<close>

datatype link = Head | After addr

definition dead :: "hmap_map_type \<Rightarrow> addr \<Rightarrow> bool" where
  "dead hmap p \<longleftrightarrow> p < length (map_heap hmap) \<and> map_heap hmap ! p = None"

fun link_ok :: "hmap_map_type \<Rightarrow> link \<Rightarrow> addr option \<Rightarrow> bool" where
  "link_ok hmap Head None = True"
| "link_ok hmap Head (Some p) = dead hmap p"
| "link_ok hmap (After a) q = (q = Some a)"

definition entry_bucket :: "hmap_map_type \<Rightarrow> hmap_entry_type \<Rightarrow> nat" where
  "entry_bucket hmap e = unat (entry_key_hash e mod map_buckets_len hmap)"

fun start :: "addr list \<Rightarrow> addr option \<Rightarrow> addr option" where
  "start [] nx = nx"
| "start (a # as) nx = Some a"

fun linked :: "hmap_map_type \<Rightarrow> nat \<Rightarrow> link \<Rightarrow> addr list \<Rightarrow> addr option \<Rightarrow> bool" where
  "linked hmap i pl [] nx = True"
| "linked hmap i pl (a # as) nx =
     (case entry_at hmap a of
        None \<Rightarrow> False
      | Some e \<Rightarrow>
          link_ok hmap pl (entry_previous e) \<and> entry_bucket hmap e = i
          \<and> entry_next e = start as nx \<and> linked hmap i (After a) as nx)"

definition bucket_ok :: "hmap_map_type \<Rightarrow> nat \<Rightarrow> addr list \<Rightarrow> bool" where
  "bucket_ok hmap i as \<longleftrightarrow>
     map_buckets hmap ! i = start as None \<and> linked hmap i Head as None \<and> distinct as"

definition hmap_inv :: "hmap_map_type \<Rightarrow> bool" where
  "hmap_inv hmap \<longleftrightarrow>
     length (map_buckets hmap) = unat (map_buckets_len hmap)
     \<and> (\<forall>i<length (map_buckets hmap). \<exists>as. bucket_ok hmap i as)"

text \<open>What the shape of the lists reads of an entry.\<close>

definition links :: "hmap_entry_type \<Rightarrow> HMAP_hash_val_type \<times> addr option \<times> addr option" where
  "links e = (entry_key_hash e, entry_next e, entry_previous e)"

section \<open>Properties\<close>

subsection \<open>Blobs: sizes, comparison, copy and hash\<close>

lemma unat_anon_size: "valid_anon a \<Longrightarrow> unat (anon_size a) = length a"
  by (simp add: valid_anon_def anon_size_def unat_of_nat)

lemma hash_sdbm_loop_foldl:
  "unat (anon_size key) = length key \<Longrightarrow> i \<le> length key \<Longrightarrow>
   hash_sdbm_loop key i hash = foldl sdbm_step hash (drop i key)"
proof (induction key i hash rule: hash_sdbm_loop.induct)
  case (1 key i hash)
  show ?case
  proof (cases "i < length key")
    case True
    then have "drop i key = key ! i # drop (Suc i) key"
      by (simp add: Cons_nth_drop_Suc)
    moreover have "push_bit 16 hash + push_bit 6 hash - hash + ucast (key ! i)
                   = sdbm_step hash (key ! i)"
      by (simp add: sdbm_step_def)
    ultimately show ?thesis
      using True "1.prems" "1.IH" by (subst hash_sdbm_loop.simps) simp
  next
    case False
    with "1.prems" show ?thesis
      by (subst hash_sdbm_loop.simps) simp
  qed
qed

text \<open>
  Claim C8. For every input blob, the default hash is the value of the recurrence that
  starts from an accumulator of zero and, for each byte \<open>b\<close> in order, replaces the
  accumulator by \<open>(accumulator << 16) + (accumulator << 6) - accumulator + b\<close>, in
  arithmetic modulo \<open>2 ^ 32\<close>.
\<close>

theorem hash_sdbm_is_recurrence:
  "valid_anon key \<Longrightarrow> hash_sdbm key = sdbm_recurrence key"
  by (simp add: hash_sdbm_def sdbm_recurrence_def hash_sdbm_loop_foldl unat_anon_size)

theorem hash_sdbm_is_recurrence_witness:
  "valid_anon [97, 105] \<and> hash_sdbm [97, 105] = sdbm_recurrence [97, 105]
   \<and> sdbm_recurrence [97, 105] = 6363208"
proof -
  have v: "valid_anon [97, 105]" by (simp add: valid_anon_def)
  have "sdbm_recurrence [97, 105] = 6363208"
    by (simp add: sdbm_recurrence_def sdbm_step_def)
  with v hash_sdbm_is_recurrence [OF v] show ?thesis by simp
qed

lemma anon_data_match_loop_iff:
  "unat (anon_size data_1) = length data_1 \<Longrightarrow> length data_2 = length data_1 \<Longrightarrow>
   anon_data_match_loop data_1 data_2 i = (\<forall>j. i \<le> j \<and> j < length data_1 \<longrightarrow> data_1 ! j = data_2 ! j)"
proof (induction data_1 data_2 i rule: anon_data_match_loop.induct)
  case (1 data_1 data_2 i)
  show ?case
  proof (cases "i < length data_1")
    case True
    show ?thesis
    proof (cases "data_1 ! i = data_2 ! i")
      case same: True
      have "(\<forall>j. i \<le> j \<and> j < length data_1 \<longrightarrow> data_1 ! j = data_2 ! j)
            = (\<forall>j. Suc i \<le> j \<and> j < length data_1 \<longrightarrow> data_1 ! j = data_2 ! j)"
        using same by (metis Suc_leI le_eq_less_or_eq Suc_leD)
      with True same "1.prems" "1.IH" show ?thesis
        by (subst anon_data_match_loop.simps) simp
    next
      case False
      with True "1.prems" show ?thesis
        by (subst anon_data_match_loop.simps) auto
    qed
  next
    case False
    with "1.prems" show ?thesis
      by (subst anon_data_match_loop.simps) auto
  qed
qed

lemma anon_data_match_eq:
  assumes "valid_anon a" and "valid_anon b"
  shows "anon_data_match a b = (a = b)"
proof (cases "length a = length b")
  case True
  with assms have "anon_size a = anon_size b" by (simp add: anon_size_def)
  moreover have "unat (anon_size a) = length a"
    using assms by (simp add: unat_anon_size)
  from anon_data_match_loop_iff [OF this True [symmetric], of 0]
  have "anon_data_match_loop a b 0 = (\<forall>j<length a. a ! j = b ! j)"
    by simp
  ultimately show ?thesis
    using True by (simp add: anon_data_match_def list_eq_iff_nth_eq)
next
  case False
  with assms have "unat (anon_size a) \<noteq> unat (anon_size b)"
    by (simp add: unat_anon_size)
  then have "anon_size a \<noteq> anon_size b" by auto
  with False show ?thesis by (auto simp: anon_data_match_def)
qed

lemma copy_anon_data_loop_eq:
  "unat (anon_size source) = length source \<Longrightarrow> i \<le> length source \<Longrightarrow>
   copy_anon_data_loop source i written = written @ drop i source"
proof (induction source i written rule: copy_anon_data_loop.induct)
  case (1 source i written)
  show ?case
  proof (cases "i < length source")
    case True
    then have "drop i source = source ! i # drop (Suc i) source"
      by (simp add: Cons_nth_drop_Suc)
    with True "1.prems" "1.IH" show ?thesis
      by (subst copy_anon_data_loop.simps) simp
  next
    case False
    with "1.prems" show ?thesis
      by (subst copy_anon_data_loop.simps) simp
  qed
qed

lemma copy_anon_data_eq: "valid_anon source \<Longrightarrow> copy_anon_data source = source"
  by (simp add: copy_anon_data_def copy_anon_data_loop_eq unat_anon_size)

lemma faulted_iff: "faulted r = Some f \<longleftrightarrow> r = Some (Inl f)"
  by (auto simp: faulted_def split: option.splits sum.splits)

subsection \<open>The end-to-end example of the specification\<close>

text \<open>
  Eight buckets, default hash: after \<open>a \<mapsto> 1\<close>, \<open>b \<mapsto> 2\<close>, \<open>a \<mapsto> 3\<close> there are two
  entries, \<open>a\<close> reads 3, \<open>b\<close> reads 2 and \<open>c\<close> is absent; after \<open>b\<close> is removed there
  is one entry and \<open>b\<close> is not in the map.
\<close>

lemma end_to_end_example:
  "(case do_calls (created (sdbm_def 8))
            [Set_data [97] [49], Set_data [98] [50], Set_data [97] [51]] of
      Some (Inr obj) \<Rightarrow>
        HMAP_get_entry_count obj (Some 0) = Inr (HMAP_STATUS_SUCCESS, Some 2)
        \<and> HMAP_get_data obj (Some [97]) (Some []) = Some (Inr (HMAP_STATUS_SUCCESS, Some [51]))
        \<and> HMAP_get_data obj (Some [98]) (Some []) = Some (Inr (HMAP_STATUS_SUCCESS, Some [50]))
        \<and> HMAP_key_in_map obj (Some [99]) = Some (Inr False)
        \<and> (case HMAP_remove_entry obj (Some [98]) of
              Some (Inr (status, obj')) \<Rightarrow>
                status = HMAP_STATUS_SUCCESS
                \<and> HMAP_get_entry_count obj' (Some 0) = Inr (HMAP_STATUS_SUCCESS, Some 1)
                \<and> HMAP_get_data obj' (Some [98]) (Some [])
                    = Some (Inr (HMAP_STATUS_KEY_NOT_IN_MAP, Some []))
            | _ \<Rightarrow> False)
    | _ \<Rightarrow> False)"
  by code_simp

subsection \<open>The scratch array of get\_entry\_by\_key\<close>

text \<open>
  Claim C1 asks that any number of keys with one hash value can be stored and read back,
  and that the five-slot array \<^verbatim>\<open>entries\<close> is never exceeded. The code exceeds it:
  \<^verbatim>\<open>get_entry_by_hash\<close> discards the capacity it is given and writes one slot per
  entry with the hash. With the default hash and eight buckets, after six keys of one
  hash value have been set, the lookup of each of the six writes \<^verbatim>\<open>entries[5]\<close>.
\<close>

theorem six_collisions_overrun_entries:
  "map hash_sdbm (map colliding_key [0..<6]) = replicate 6 299059904
   \<and> distinct (map colliding_key [0..<6])
   \<and> (case do_calls (created (sdbm_def 8)) (colliding_sets 6) of
        Some (Inr obj) \<Rightarrow>
          faulted (HMAP_get_data obj (Some (colliding_key 0)) (Some [])) = Some Entries_overrun
          \<and> faulted (HMAP_get_data obj (Some (colliding_key 1)) (Some [])) = Some Entries_overrun
          \<and> faulted (HMAP_get_data obj (Some (colliding_key 2)) (Some [])) = Some Entries_overrun
          \<and> faulted (HMAP_get_data obj (Some (colliding_key 3)) (Some [])) = Some Entries_overrun
          \<and> faulted (HMAP_get_data obj (Some (colliding_key 4)) (Some [])) = Some Entries_overrun
          \<and> faulted (HMAP_get_data obj (Some (colliding_key 5)) (Some [])) = Some Entries_overrun
      | _ \<Rightarrow> False)"
  by code_simp

text \<open>
  Claim C3 asks that a set followed by a get of the same key succeeds and yields the
  value. On the map that holds five keys of one hash value, setting a sixth key of that
  hash succeeds, and the get that follows overruns the scratch array (the defect of
  claim C1).
\<close>

theorem set_then_get_overruns_entries:
  "(case do_calls (created (sdbm_def 8)) (colliding_sets 5) of
      Some (Inr obj) \<Rightarrow>
        (case HMAP_set_data obj (Some (colliding_key 5)) (Some [5]) of
           Some (Inr (status, obj')) \<Rightarrow>
             status = HMAP_STATUS_SUCCESS
             \<and> faulted (HMAP_get_data obj' (Some (colliding_key 5)) (Some []))
                 = Some Entries_overrun
         | _ \<Rightarrow> False)
    | _ \<Rightarrow> False)"
  by code_simp

text \<open>
  Claim C4 asks that setting a stored key to a value of another length changes the total
  size by the difference of the lengths, and that a get then returns the new value. On
  the map that holds five keys of one hash value, a sixth key of that hash is set to the
  one byte 5: the set succeeds and the map counts six entries. Setting the same key to
  the two bytes 6, 6 then looks the key up among six entries of its hash and overruns
  the scratch array (the defect of claim C1), so the update is not carried out.
\<close>

theorem update_of_sixth_collision_overruns_entries:
  "(case do_calls (created (sdbm_def 8)) (colliding_sets 5) of
      Some (Inr obj) \<Rightarrow>
        (case HMAP_set_data obj (Some (colliding_key 5)) (Some [5]) of
           Some (Inr (status, obj')) \<Rightarrow>
             status = HMAP_STATUS_SUCCESS
             \<and> HMAP_get_entry_count obj' (Some 0) = Inr (HMAP_STATUS_SUCCESS, Some 6)
             \<and> (case obj' of
                   Some ob \<Rightarrow>
                     (case obj_data ob of
                        Some hmap \<Rightarrow>
                          map_buckets hmap ! 0 = Some 5
                          \<and> map_option entry_key (entry_at hmap 5) = Some (colliding_key 5)
                          \<and> map_option entry_data (entry_at hmap 5) = Some [5]
                      | None \<Rightarrow> False)
                 | None \<Rightarrow> False)
             \<and> faulted (HMAP_set_data obj' (Some (colliding_key 5)) (Some [6, 6]))
                 = Some Entries_overrun
         | _ \<Rightarrow> False)
    | _ \<Rightarrow> False)"
  by code_simp

subsection \<open>The size field of an entry\<close>

text \<open>
  Claim C2 asks that the map's size is the overhead plus the size fields of its
  entries, and that an entry's size field follows its value's length. \<^verbatim>\<open>HMAP_set_data\<close>
  adds the difference of the lengths to the map's totals and leaves \<^verbatim>\<open>entry->size\<close> as
  \<^verbatim>\<open>create_entry\<close> set it. After \<open>a \<mapsto> 1\<close> and \<open>a \<mapsto> 22\<close> on eight buckets the entry
  takes 67 bytes and its size field says 66; the map's size is 187, the overhead plus
  the one size field is 186. Removing the key then subtracts 66 and leaves an empty map
  of size 121, one more than the 120 it was created with.
\<close>

theorem stale_entry_size_after_update:
  "(case do_calls (created (sdbm_def 8)) [Set_data [97] [49], Set_data [97] [50, 50]] of
      Some (Inr (Some ob)) \<Rightarrow>
        (case obj_data ob of
           Some hmap \<Rightarrow>
             map_buckets hmap = [None, Some 0, None, None, None, None, None, None]
             \<and> map (map_option entry_next) (map_heap hmap) = [Some None]
             \<and> map (map_option entry_size) (map_heap hmap) = [Some 66]
             \<and> map (map_option (\<lambda>e. anon_size (entry_data e) + anon_size (entry_key e)
                                        + sizeof_entry)) (map_heap hmap) = [Some 67]
             \<and> map_size hmap = 187
             \<and> sizeof_map + sizeof_bucket * map_buckets_len hmap + 66 = 186
         | None \<Rightarrow> False)
    | _ \<Rightarrow> False)
   \<and> HMAP_get_size (created (sdbm_def 8)) (Some 0) = Inr (HMAP_STATUS_SUCCESS, Some 120)
   \<and> (case do_calls (created (sdbm_def 8))
              [Set_data [97] [49], Set_data [97] [50, 50], Remove_entry [97]] of
        Some (Inr obj) \<Rightarrow>
          HMAP_get_entry_count obj (Some 0) = Inr (HMAP_STATUS_SUCCESS, Some 0)
          \<and> HMAP_get_size obj (Some 0) = Inr (HMAP_STATUS_SUCCESS, Some 121)
      | _ \<Rightarrow> False)"
  by code_simp

subsection \<open>Removing the head of a bucket\<close>

text \<open>
  When \<^verbatim>\<open>HMAP_remove_entry\<close> removes the first entry of a bucket it points the bucket
  at the second entry and leaves that entry's \<^verbatim>\<open>previous\<close> pointing at the entry it
  frees. The keys \<open>a\<close> and \<open>i\<close> share bucket 1 of eight under the default hash.

  Claim C5 asks that removing a key that has just been set makes it absent and lowers
  the count by one, on every map. On the map left by setting \<open>a\<close>, setting \<open>i\<close> and
  removing \<open>i\<close>, a set of \<open>a\<close> succeeds, and the removal of \<open>a\<close> that follows goes
  through the dangling \<^verbatim>\<open>previous\<close> pointer into the freed entry.
\<close>

theorem remove_after_head_removal_faults:
  "(case do_calls (created (sdbm_def 8))
            [Set_data [97] [49], Set_data [105] [50], Remove_entry [105]] of
      Some (Inr obj) \<Rightarrow>
        (case HMAP_set_data obj (Some [97]) (Some [51]) of
           Some (Inr (status, obj')) \<Rightarrow>
             status = HMAP_STATUS_SUCCESS
             \<and> HMAP_key_in_map obj' (Some [97]) = Some (Inr True)
             \<and> faulted (HMAP_remove_entry obj' (Some [97])) = Some Dangling_pointer
         | _ \<Rightarrow> False)
    | _ \<Rightarrow> False)"
  by code_simp

text \<open>
  Claim C7 asks that after any sequence of set and remove calls the entry count is
  the number of entries reachable from the buckets. After set \<open>a\<close>, set \<open>i\<close>, remove \<open>i\<close>
  there is one entry, the count is 1, and the entry's \<^verbatim>\<open>previous\<close> is the freed
  address 1. Removing \<open>a\<close> next takes the branch for an entry with a predecessor: it
  writes into the freed entry and never resets bucket 1 (the defect of claim C5).
\<close>

theorem set_set_remove_remove_faults:
  "(case do_calls (created (sdbm_def 8))
            [Set_data [97] [49], Set_data [105] [50], Remove_entry [105]] of
      Some (Inr (Some ob)) \<Rightarrow>
        (case obj_data ob of
           Some hmap \<Rightarrow>
             map_entry_count hmap = 1
             \<and> map_buckets hmap = [None, Some 0, None, None, None, None, None, None]
             \<and> map (map_option entry_previous) (map_heap hmap) = [Some (Some 1), None]
         | None \<Rightarrow> False)
    | _ \<Rightarrow> False)
   \<and> faulted (do_calls (created (sdbm_def 8))
                [Set_data [97] [49], Set_data [105] [50], Remove_entry [105],
                 Remove_entry [97]])
       = Some Dangling_pointer"
  by code_simp

subsection \<open>HMAP\_create\<close>

lemma HMAP_create_cases:
  "HMAP_create hmap_def out_obj =
     (if hmap_def = None \<or> out_obj = None then (HMAP_STATUS_INVALID_ARG, out_obj)
      else if def_malloc (the hmap_def) = None \<or> def_free (the hmap_def) = None
      then (HMAP_STATUS_INVALID_DEF, out_obj)
      else if def_hash_type (the hmap_def) = HMAP_HASH_FUNC_CUSTOM \<and> def_hash (the hmap_def) = None
      then (HMAP_STATUS_INVALID_DEF, Some ((the out_obj)\<lparr>obj_data := None\<rparr>))
      else (HMAP_STATUS_SUCCESS,
            Some ((the out_obj)\<lparr>obj_data :=
               Some (new_map (the hmap_def) (the (def_malloc (the hmap_def)))
                       (the (def_free (the hmap_def)))
                       (if def_hash_type (the hmap_def) = HMAP_HASH_FUNC_CUSTOM
                        then the (def_hash (the hmap_def)) else hash_sdbm))\<rparr>)))"
  by (auto simp: HMAP_create_def split: option.splits)

text \<open>
  Claim C9, amended. \<^verbatim>\<open>HMAP_create\<close> returns \<^verbatim>\<open>HMAP_STATUS_INVALID_ARG\<close> exactly when
  the definition or the out object is missing; with both present it returns
  \<^verbatim>\<open>HMAP_STATUS_INVALID_DEF\<close> exactly when an allocator hook is absent or the custom
  hash type is selected without a hash function. On success every bucket is empty, the
  entry count and the key and data byte totals are zero, and the total size is the size
  of the map structure plus the size of the bucket array.
\<close>

theorem HMAP_create_contract:
  "(fst (HMAP_create hmap_def out_obj) = HMAP_STATUS_INVALID_ARG
      \<longleftrightarrow> hmap_def = None \<or> out_obj = None)
   \<and> (fst (HMAP_create hmap_def out_obj) = HMAP_STATUS_INVALID_DEF
      \<longleftrightarrow> (\<exists>d out. hmap_def = Some d \<and> out_obj = Some out
            \<and> (def_malloc d = None \<or> def_free d = None
                \<or> (def_hash_type d = HMAP_HASH_FUNC_CUSTOM \<and> def_hash d = None))))
   \<and> (fst (HMAP_create hmap_def out_obj) = HMAP_STATUS_SUCCESS
      \<longrightarrow> (\<exists>d out hmap. hmap_def = Some d \<and> out_obj = Some out
            \<and> snd (HMAP_create hmap_def out_obj) = Some (out\<lparr>obj_data := Some hmap\<rparr>)
            \<and> map_buckets hmap = replicate (unat (def_map_size d)) None
            \<and> map_buckets_len hmap = def_map_size d
            \<and> map_heap hmap = []
            \<and> map_entry_count hmap = 0
            \<and> map_data_size hmap = 0
            \<and> map_key_size hmap = 0
            \<and> map_size hmap = sizeof_map + sizeof_bucket * def_map_size d))"
proof (intro conjI)
  show "fst (HMAP_create hmap_def out_obj) = HMAP_STATUS_INVALID_ARG
          \<longleftrightarrow> hmap_def = None \<or> out_obj = None"
    by (simp add: HMAP_create_cases)
  show "fst (HMAP_create hmap_def out_obj) = HMAP_STATUS_INVALID_DEF
          \<longleftrightarrow> (\<exists>d out. hmap_def = Some d \<and> out_obj = Some out
                \<and> (def_malloc d = None \<or> def_free d = None
                    \<or> (def_hash_type d = HMAP_HASH_FUNC_CUSTOM \<and> def_hash d = None)))"
    by (cases hmap_def; cases out_obj) (auto simp: HMAP_create_cases)
  show "fst (HMAP_create hmap_def out_obj) = HMAP_STATUS_SUCCESS
      \<longrightarrow> (\<exists>d out hmap. hmap_def = Some d \<and> out_obj = Some out
            \<and> snd (HMAP_create hmap_def out_obj) = Some (out\<lparr>obj_data := Some hmap\<rparr>)
            \<and> map_buckets hmap = replicate (unat (def_map_size d)) None
            \<and> map_buckets_len hmap = def_map_size d
            \<and> map_heap hmap = []
            \<and> map_entry_count hmap = 0
            \<and> map_data_size hmap = 0
            \<and> map_key_size hmap = 0
            \<and> map_size hmap = sizeof_map + sizeof_bucket * def_map_size d)"
    by (cases hmap_def; cases out_obj)
       (auto simp: HMAP_create_cases new_map_def split: if_splits)
qed

lemma created_sdbm_8:
  "HMAP_create (Some (sdbm_def 8)) (Some blank_obj)
     = (HMAP_STATUS_SUCCESS,
        Some (blank_obj\<lparr>obj_data := Some (new_map (sdbm_def 8) Malloc_hook Free_hook hash_sdbm)\<rparr>))"
  by (simp add: HMAP_create_def sdbm_def_def HMAP_HASH_FUNC_SDBM_def HMAP_HASH_FUNC_CUSTOM_def)

theorem HMAP_create_contract_witness:
  "fst (HMAP_create (Some (sdbm_def 8)) (Some blank_obj)) = HMAP_STATUS_SUCCESS
   \<and> (\<exists>hmap. snd (HMAP_create (Some (sdbm_def 8)) (Some blank_obj))
                 = Some (blank_obj\<lparr>obj_data := Some hmap\<rparr>)
        \<and> map_buckets hmap = replicate 8 None
        \<and> map_entry_count hmap = 0 \<and> map_data_size hmap = 0 \<and> map_key_size hmap = 0
        \<and> map_size hmap = 120)"
proof -
  have ok: "fst (HMAP_create (Some (sdbm_def 8)) (Some blank_obj)) = HMAP_STATUS_SUCCESS"
    by (simp add: created_sdbm_8)
  with HMAP_create_contract [of "Some (sdbm_def 8)" "Some blank_obj"]
  obtain hmap where
    "snd (HMAP_create (Some (sdbm_def 8)) (Some blank_obj)) = Some (blank_obj\<lparr>obj_data := Some hmap\<rparr>)"
    "map_buckets hmap = replicate (unat (def_map_size (sdbm_def 8))) None"
    "map_entry_count hmap = 0" "map_data_size hmap = 0" "map_key_size hmap = 0"
    "map_size hmap = sizeof_map + sizeof_bucket * def_map_size (sdbm_def 8)"
    by auto
  then show ?thesis
    using ok by (auto simp: sdbm_def_def sizeof_map_def sizeof_bucket_def)
qed

text \<open>
  Claim C9 as stated says that on success all aggregates are zeroed. The total size is
  not: a map created with eight buckets reports 120 bytes. It also ties
  \<^verbatim>\<open>InvalidDefinition\<close> to the missing hooks alone, where a missing out object comes
  first: a definition without \<^verbatim>\<open>malloc\<close> and no out object give
  \<^verbatim>\<open>HMAP_STATUS_INVALID_ARG\<close>.
\<close>

theorem HMAP_create_total_size_counterexample:
  "fst (HMAP_create (Some (sdbm_def 8)) (Some blank_obj)) = HMAP_STATUS_SUCCESS
   \<and> HMAP_get_size (snd (HMAP_create (Some (sdbm_def 8)) (Some blank_obj))) (Some 0)
       = Inr (HMAP_STATUS_SUCCESS, Some 120)
   \<and> HMAP_get_size (snd (HMAP_create (Some (sdbm_def 8)) (Some blank_obj))) (Some 0)
       \<noteq> Inr (HMAP_STATUS_SUCCESS, Some 0)
   \<and> def_malloc ((sdbm_def 8)\<lparr>def_malloc := None\<rparr>) = None
   \<and> fst (HMAP_create (Some ((sdbm_def 8)\<lparr>def_malloc := None\<rparr>)) None)
       = HMAP_STATUS_INVALID_ARG"
  unfolding created_sdbm_8
  by (simp add: HMAP_get_size_def new_map_def sdbm_def_def sizeof_map_def sizeof_bucket_def
                HMAP_create_def)

subsection \<open>A map without buckets\<close>

lemma get_entry_by_key_zero_buckets:
  "map_buckets_len hmap = 0 \<Longrightarrow> get_entry_by_key hmap key = Some (Inl Div_by_zero)"
  by (simp add: get_entry_by_key_def get_entry_by_hash_def get_bucket_by_hash_def)

text \<open>
  Claim C6. \<^verbatim>\<open>HMAP_create\<close> accepts a definition with \<^verbatim>\<open>map_size\<close> zero and returns
  success. On the map it makes, \<^verbatim>\<open>get_bucket_by_hash\<close> takes the remainder by
  \<^verbatim>\<open>buckets_len = 0\<close>, and every lookup and mutation (get, contains, set, remove)
  reaches that division.
\<close>

theorem zero_buckets_accepted_then_div_by_zero:
  assumes "def_map_size d = 0"
    and "def_malloc d \<noteq> None" and "def_free d \<noteq> None"
    and "def_hash_type d = HMAP_HASH_FUNC_CUSTOM \<longrightarrow> def_hash d \<noteq> None"
  shows "fst (HMAP_create (Some d) (Some out)) = HMAP_STATUS_SUCCESS
    \<and> (\<exists>hmap. snd (HMAP_create (Some d) (Some out)) = Some (out\<lparr>obj_data := Some hmap\<rparr>)
          \<and> map_buckets_len hmap = 0
          \<and> get_bucket_by_hash hmap key_hash = Inl Div_by_zero)
    \<and> HMAP_get_data (snd (HMAP_create (Some d) (Some out))) (Some key) (Some buf)
         = Some (Inl Div_by_zero)
    \<and> HMAP_key_in_map (snd (HMAP_create (Some d) (Some out))) (Some key)
         = Some (Inl Div_by_zero)
    \<and> HMAP_set_data (snd (HMAP_create (Some d) (Some out))) (Some key) (Some data)
         = Some (Inl Div_by_zero)
    \<and> HMAP_remove_entry (snd (HMAP_create (Some d) (Some out))) (Some key)
         = Some (Inl Div_by_zero)"
proof -
  from assms obtain hmap where
    created: "HMAP_create (Some d) (Some out) = (HMAP_STATUS_SUCCESS, Some (out\<lparr>obj_data := Some hmap\<rparr>))"
    and len: "map_buckets_len hmap = 0"
    by (auto simp: HMAP_create_cases new_map_def)
  from len have lookup: "get_entry_by_key hmap key = Some (Inl Div_by_zero)"
    by (rule get_entry_by_key_zero_buckets)
  from len have "get_bucket_by_hash hmap key_hash = Inl Div_by_zero"
    by (simp add: get_bucket_by_hash_def)
  with created len have
    "\<exists>hmap. snd (HMAP_create (Some d) (Some out)) = Some (out\<lparr>obj_data := Some hmap\<rparr>)
       \<and> map_buckets_len hmap = 0
       \<and> get_bucket_by_hash hmap key_hash = Inl Div_by_zero"
    by (intro exI [of _ hmap]) simp
  with created lookup show ?thesis
    by (simp add: HMAP_get_data_def HMAP_key_in_map_def HMAP_set_data_def HMAP_remove_entry_def)
qed

theorem zero_buckets_witness:
  "def_map_size (sdbm_def 0) = 0
   \<and> fst (HMAP_create (Some (sdbm_def 0)) (Some blank_obj)) = HMAP_STATUS_SUCCESS
   \<and> HMAP_set_data (snd (HMAP_create (Some (sdbm_def 0)) (Some blank_obj))) (Some [97]) (Some [49])
       = Some (Inl Div_by_zero)
   \<and> HMAP_get_data (snd (HMAP_create (Some (sdbm_def 0)) (Some blank_obj))) (Some [97]) (Some [])
       = Some (Inl Div_by_zero)"
proof -
  have "def_map_size (sdbm_def 0) = 0" "def_malloc (sdbm_def 0) \<noteq> None"
    "def_free (sdbm_def 0) \<noteq> None"
    "def_hash_type (sdbm_def 0) = HMAP_HASH_FUNC_CUSTOM \<longrightarrow> def_hash (sdbm_def 0) \<noteq> None"
    by (simp_all add: sdbm_def_def HMAP_HASH_FUNC_SDBM_def HMAP_HASH_FUNC_CUSTOM_def)
  from zero_buckets_accepted_then_div_by_zero [OF this, of blank_obj _ "[97]" "[]" "[49]"]
  show ?thesis by (simp add: sdbm_def_def)
qed

subsection \<open>Updating the value of a stored key\<close>

lemma length_copy_anon_data_loop:
  "length (copy_anon_data_loop source i written) = length written + (unat (anon_size source) - i)"
proof (induction source i written rule: copy_anon_data_loop.induct)
  case (1 source i written)
  show ?case
  proof (cases "i < unat (anon_size source)")
    case True
    with "1.IH" show ?thesis
      by (subst copy_anon_data_loop.simps) simp
  next
    case False
    then show ?thesis
      by (subst copy_anon_data_loop.simps) simp
  qed
qed

lemma length_copy_anon_data: "length (copy_anon_data source) = unat (anon_size source)"
  by (simp add: copy_anon_data_def length_copy_anon_data_loop)

lemma anon_size_copy_anon_data: "anon_size (copy_anon_data source) = anon_size source"
  by (simp add: anon_size_def [of "copy_anon_data source"] length_copy_anon_data)

lemma valid_copy_anon_data: "valid_anon (copy_anon_data source)"
  unfolding valid_anon_def length_copy_anon_data
  using unsigned_less [of "anon_size source", where 'a = nat] by simp

lemma entry_at_entry_store:
  "entry_at (entry_store hmap a entry) b =
     (if b = a \<and> a < length (map_heap hmap) then Some entry else entry_at hmap b)"
  by (simp add: entry_at_def entry_store_def)

lemma same_links_entry:
  assumes "same_links hmap hmap'" and "entry_at hmap a = Some e"
  shows "\<exists>e'. entry_at hmap' a = Some e' \<and> entry_key e' = entry_key e
        \<and> entry_key_hash e' = entry_key_hash e \<and> entry_next e' = entry_next e"
proof -
  from assms have
    "map_option (\<lambda>e. (entry_key e, entry_key_hash e, entry_next e)) (entry_at hmap' a)
       = Some (entry_key e, entry_key_hash e, entry_next e)"
    by (simp add: same_links_def)
  then show ?thesis by (cases "entry_at hmap' a") auto
qed

lemma same_links_dead:
  assumes "same_links hmap hmap'" and "entry_at hmap a = None"
  shows "entry_at hmap' a = None"
proof -
  from assms have
    "map_option (\<lambda>e. (entry_key e, entry_key_hash e, entry_next e)) (entry_at hmap' a) = None"
    by (simp add: same_links_def)
  then show ?thesis by simp
qed

lemma get_entry_by_hash_loop_same_links:
  assumes "get_entry_by_hash_loop hmap key_hash entry entries entries_len = Some r"
    and "same_links hmap hmap'"
  shows "get_entry_by_hash_loop hmap' key_hash entry entries entries_len = Some r"
  using assms
proof (induction arbitrary: hmap'
         rule: get_entry_by_hash_loop.raw_induct [rotated, consumes 1, case_names step])
  case (step loop hmap key_hash entry entries entries_len r)
  note links = \<open>same_links hmap hmap'\<close>
  show ?case
  proof (cases entry)
    case None
    with step.hyps show ?thesis by (simp add: get_entry_by_hash_loop.simps)
  next
    case (Some a)
    show ?thesis
    proof (cases "entry_at hmap a")
      case None
      with Some step.hyps same_links_dead [OF links None] show ?thesis
        by (simp add: get_entry_by_hash_loop.simps)
    next
      case live: (Some e)
      from same_links_entry [OF links live] obtain e' where
        e': "entry_at hmap' a = Some e'" "entry_key_hash e' = entry_key_hash e"
            "entry_next e' = entry_next e"
        by blast
      show ?thesis
      proof (cases "entry_key_hash e = key_hash")
        case False
        with Some live step.hyps have
          "loop hmap key_hash (entry_next e) entries entries_len = Some r"
          by simp
        from step.IH [OF this links] Some e' False show ?thesis
          by (subst get_entry_by_hash_loop.simps) simp
      next
        case True
        show ?thesis
        proof (cases "entries_len < length entries")
          case False
          with True Some live step.hyps e' show ?thesis
            by (subst get_entry_by_hash_loop.simps) simp
        next
          case room: True
          with True Some live step.hyps have
            "loop hmap key_hash (entry_next e) (entries[entries_len := Some a])
               (Suc entries_len) = Some r"
            by simp
          from step.IH [OF this links] Some e' True room show ?thesis
            by (subst get_entry_by_hash_loop.simps) simp
        qed
      qed
    qed
  qed
qed


lemma get_entry_by_key_loop_same_links:
  assumes "same_links hmap hmap'"
  shows "get_entry_by_key_loop hmap' key entries entries_count i
           = get_entry_by_key_loop hmap key entries entries_count i"
  using assms
proof (induction hmap key entries entries_count i rule: get_entry_by_key_loop.induct)
  case (1 hmap key entries entries_count i)
  note links = "1.prems"
  show ?case
  proof (cases "i < entries_count \<and> i < length entries")
    case False
    then show ?thesis
      by (subst get_entry_by_key_loop.simps, subst (2) get_entry_by_key_loop.simps) auto
  next
    case in_range: True
    show ?thesis
    proof (cases "entries ! i")
      case None
      with in_range show ?thesis
        by (subst get_entry_by_key_loop.simps, subst (2) get_entry_by_key_loop.simps) simp
    next
      case (Some a)
      show ?thesis
      proof (cases "entry_at hmap a")
        case None
        with Some in_range same_links_dead [OF links None] show ?thesis
          by (subst get_entry_by_key_loop.simps, subst (2) get_entry_by_key_loop.simps) simp
      next
        case live: (Some e)
        from same_links_entry [OF links live] obtain e' where
          e': "entry_at hmap' a = Some e'" "entry_key e' = entry_key e"
          by blast
        show ?thesis
        proof (cases "anon_data_match (entry_key e) key")
          case True
          with Some in_range live e' show ?thesis
            by (subst get_entry_by_key_loop.simps, subst (2) get_entry_by_key_loop.simps) simp
        next
          case False
          with "1.IH" [OF _ _ Some live False links] in_range
          have "get_entry_by_key_loop hmap' key entries entries_count (Suc i)
                  = get_entry_by_key_loop hmap key entries entries_count (Suc i)"
            by simp
          with False Some in_range live e' show ?thesis
            by (subst get_entry_by_key_loop.simps, subst (2) get_entry_by_key_loop.simps) simp
        qed
      qed
    qed
  qed
qed

lemma get_entry_by_key_same_links:
  assumes found: "get_entry_by_key hmap key = Some r" and links: "same_links hmap hmap'"
  shows "get_entry_by_key hmap' key = Some r"
proof -
  from links have same: "map_hash hmap' = map_hash hmap" "map_buckets hmap' = map_buckets hmap"
    and bucket: "get_bucket_by_hash hmap' h = get_bucket_by_hash hmap h" for h
    by (simp_all add: get_bucket_by_hash_def same_links_def)
  show ?thesis
  proof (cases "get_bucket_by_hash hmap (map_hash hmap key)")
    case (Inl f)
    with found same bucket show ?thesis
      by (simp add: get_entry_by_key_def get_entry_by_hash_def)
  next
    case (Inr b)
    show ?thesis
    proof (cases "get_entry_by_hash_loop hmap (map_hash hmap key) (map_buckets hmap ! b)
                    (replicate MAX_COLLISIONS None) 0")
      case None
      with Inr found show ?thesis
        by (simp add: get_entry_by_key_def get_entry_by_hash_def)
    next
      case (Some collected)
      from get_entry_by_hash_loop_same_links [OF Some links] Some Inr same bucket found
      show ?thesis
        by (auto simp: get_entry_by_key_def get_entry_by_hash_def
                       get_entry_by_key_loop_same_links [OF links]
                 split: sum.splits)
    qed
  qed
qed

lemma HMAP_get_data_SUCCESS:
  assumes "HMAP_get_data (Some ob) (Some k) (Some buf) = Some (Inr (HMAP_STATUS_SUCCESS, v))"
    and "obj_data ob = Some hmap"
  shows "\<exists>a e. get_entry_by_key hmap k = Some (Inr (Some a)) \<and> entry_at hmap a = Some e
           \<and> v = Some (copy_anon_data (entry_data e))"
  using assms
  by (auto simp: HMAP_get_data_def split: option.splits sum.splits)

text \<open>
  What the update does where its lookup finds the key: if a get of \<open>k\<close> returns \<open>v1\<close>,
  setting \<open>k\<close> to a value \<open>v2\<close> of another length succeeds, changes the total size by
  the length of \<open>v2\<close> minus the length of \<open>v1\<close> (in \<^verbatim>\<open>unsigned int\<close> arithmetic), a
  get then returns \<open>v2\<close>, and no entry's key bytes, nor the key byte total or the entry
  count, change. A key stored as the sixth of one hash value is not covered: no get of
  it returns.
\<close>

lemma update_where_lookup_finds_key:
  assumes init: "obj_data ob = Some hmap"
    and stored: "HMAP_get_data (Some ob) (Some k) (Some buf)
                   = Some (Inr (HMAP_STATUS_SUCCESS, Some v1))"
    and valid: "valid_anon v2"
    and differ: "length v2 \<noteq> length v1"
  shows "\<exists>hmap'.
      HMAP_set_data (Some ob) (Some k) (Some v2)
        = Some (Inr (HMAP_STATUS_SUCCESS, Some (ob\<lparr>obj_data := Some hmap'\<rparr>)))
      \<and> map_size hmap' = map_size hmap + (word_of_nat (length v2) - word_of_nat (length v1))
      \<and> HMAP_get_size (Some (ob\<lparr>obj_data := Some hmap'\<rparr>)) (Some size_out)
          = Inr (HMAP_STATUS_SUCCESS,
                 Some (map_size hmap + (word_of_nat (length v2) - word_of_nat (length v1))))
      \<and> HMAP_get_data (Some (ob\<lparr>obj_data := Some hmap'\<rparr>)) (Some k) (Some buf')
          = Some (Inr (HMAP_STATUS_SUCCESS, Some v2))
      \<and> map (map_option entry_key) (map_heap hmap') = map (map_option entry_key) (map_heap hmap)
      \<and> map_key_size hmap' = map_key_size hmap
      \<and> map_entry_count hmap' = map_entry_count hmap"
proof -
  from HMAP_get_data_SUCCESS [OF stored init] obtain a e where
    found: "get_entry_by_key hmap k = Some (Inr (Some a))" and
    live: "entry_at hmap a = Some e" and
    v1: "v1 = copy_anon_data (entry_data e)"
    by auto
  from live have a: "a < length (map_heap hmap)" "map_heap hmap ! a = Some e"
    by (auto simp: entry_at_def split: if_splits)
  have size_v1: "anon_size (entry_data e) = word_of_nat (length v1)"
    using anon_size_copy_anon_data [of "entry_data e"] v1 by (simp add: anon_size_def)
  have "unat (anon_size v2) \<noteq> unat (anon_size v1)"
    using differ valid valid_copy_anon_data [of "entry_data e"] v1
    by (simp add: unat_anon_size)
  then have sizes: "anon_size (entry_data e) \<noteq> anon_size v2"
    using size_v1 by (auto simp: anon_size_def)
  define hmap1 where
    "hmap1 = hmap\<lparr>map_data_size := map_data_size hmap + (anon_size v2 - anon_size (entry_data e)),
                  map_size := map_size hmap + (anon_size v2 - anon_size (entry_data e))\<rparr>"
  define hmap' where "hmap' = entry_store hmap1 a (e\<lparr>entry_data := copy_anon_data v2\<rparr>)"
  have set_entry: "set_entry_data hmap a v2 = Inr hmap'"
    using live sizes by (simp add: set_entry_data_def hmap'_def hmap1_def)
  have set_ok: "HMAP_set_data (Some ob) (Some k) (Some v2)
                  = Some (Inr (HMAP_STATUS_SUCCESS, Some (ob\<lparr>obj_data := Some hmap'\<rparr>)))"
    using init found set_entry by (simp add: HMAP_set_data_def)
  have heap': "map_heap hmap' = (map_heap hmap)[a := Some (e\<lparr>entry_data := copy_anon_data v2\<rparr>)]"
    by (simp add: hmap'_def hmap1_def entry_store_def)
  have at': "entry_at hmap' b = (if b = a then Some (e\<lparr>entry_data := copy_anon_data v2\<rparr>)
                                 else entry_at hmap b)" for b
    using a by (simp add: entry_at_def heap')
  have links: "same_links hmap hmap'"
    using live by (simp add: same_links_def at') (simp add: hmap'_def hmap1_def entry_store_def)
  from get_entry_by_key_same_links [OF found links]
  have found': "get_entry_by_key hmap' k = Some (Inr (Some a))" .
  have get_ok: "HMAP_get_data (Some (ob\<lparr>obj_data := Some hmap'\<rparr>)) (Some k) (Some buf')
                  = Some (Inr (HMAP_STATUS_SUCCESS, Some v2))"
    using found' at' [of a] valid by (simp add: HMAP_get_data_def copy_anon_data_eq)
  have size': "map_size hmap' = map_size hmap + (word_of_nat (length v2) - word_of_nat (length v1))"
    using size_v1 by (simp add: hmap'_def hmap1_def entry_store_def anon_size_def)
  have keys: "map (map_option entry_key) (map_heap hmap') = map (map_option entry_key) (map_heap hmap)"
    using a by (auto simp: heap' list_eq_iff_nth_eq nth_list_update)
  have totals: "map_key_size hmap' = map_key_size hmap" "map_entry_count hmap' = map_entry_count hmap"
    by (simp_all add: hmap'_def hmap1_def entry_store_def)
  from set_ok size' get_ok keys totals show ?thesis
    by (intro exI [of _ hmap']) (simp add: HMAP_get_size_def)
qed

lemma example_map_reached:
  "do_calls (created (sdbm_def 8)) [Set_data [97] [49]]
     = Some (Inr (Some \<lparr>obj_data = Some example_map\<rparr>))"
  by (simp add: created_def HMAP_create_def sdbm_def_def blank_obj_def new_map_def
        HMAP_HASH_FUNC_SDBM_def HMAP_HASH_FUNC_CUSTOM_def HMAP_set_data_def
        get_entry_by_key_def get_entry_by_hash_def get_bucket_by_hash_def
        get_entry_by_hash_loop.simps get_entry_by_key_loop.simps MAX_COLLISIONS_def
        push_entry_def create_entry_def set_entry_data_def entry_at_def entry_store_def
        copy_anon_data_def copy_anon_data_loop.simps anon_size_def hash_sdbm_def
        hash_sdbm_loop.simps sizeof_map_def sizeof_bucket_def sizeof_entry_def example_map_def
        Let_def)
     (simp add: eval_nat_numeral)

lemma update_where_lookup_finds_key_example:
  "HMAP_get_data (Some \<lparr>obj_data = Some example_map\<rparr>) (Some [97]) (Some [])
     = Some (Inr (HMAP_STATUS_SUCCESS, Some [49]))
   \<and> valid_anon [50, 50]
   \<and> (\<exists>hmap'.
        HMAP_set_data (Some \<lparr>obj_data = Some example_map\<rparr>) (Some [97]) (Some [50, 50])
          = Some (Inr (HMAP_STATUS_SUCCESS, Some \<lparr>obj_data = Some hmap'\<rparr>))
        \<and> map_size example_map = 186 \<and> map_size hmap' = 187
        \<and> HMAP_get_data (Some \<lparr>obj_data = Some hmap'\<rparr>) (Some [97]) (Some [])
            = Some (Inr (HMAP_STATUS_SUCCESS, Some [50, 50])))"
proof -
  have init: "obj_data \<lparr>obj_data = Some example_map\<rparr> = Some example_map" by simp
  have stored: "HMAP_get_data (Some \<lparr>obj_data = Some example_map\<rparr>) (Some [97]) (Some [])
                  = Some (Inr (HMAP_STATUS_SUCCESS, Some [49]))"
    by code_simp
  have valid: "valid_anon [50, 50]" by (simp add: valid_anon_def)
  have differ: "length [50, 50 :: byte] \<noteq> length [49 :: byte]" by simp
  from update_where_lookup_finds_key [OF init stored valid differ, where buf' = "[]"]
  obtain hmap' where
    "HMAP_set_data (Some \<lparr>obj_data = Some example_map\<rparr>) (Some [97]) (Some [50, 50])
       = Some (Inr (HMAP_STATUS_SUCCESS, Some \<lparr>obj_data = Some hmap'\<rparr>))"
    "map_size hmap' = map_size example_map + (word_of_nat (length [50, 50 :: byte]) - word_of_nat (length [49 :: byte]))"
    "HMAP_get_data (Some \<lparr>obj_data = Some hmap'\<rparr>) (Some [97]) (Some [])
       = Some (Inr (HMAP_STATUS_SUCCESS, Some [50, 50]))"
    by auto
  moreover have "map_size example_map = 186" by (simp add: example_map_def)
  ultimately show ?thesis
    using stored valid by (intro conjI exI [of _ hmap']) simp_all
qed

section \<open>Well-formed maps and HMAP\_destroy\<close>

subsection \<open>Lists of entries in the heap\<close>

lemma entry_at_None_iff:
  "entry_at hmap a = None \<longleftrightarrow> a \<ge> length (map_heap hmap) \<or> dead hmap a"
  by (auto simp: entry_at_def dead_def)

lemma entry_at_Some_less:
  "entry_at hmap a = Some e \<Longrightarrow> a < length (map_heap hmap) \<and> map_heap hmap ! a = Some e"
  by (auto simp: entry_at_def split: if_splits)

lemma start_append: "start (xs @ ys) nx = start xs (start ys nx)"
  by (cases xs) simp_all

lemma linked_append:
  "linked hmap i pl (xs @ ys) nx \<longleftrightarrow>
     linked hmap i pl xs (start ys nx)
     \<and> linked hmap i (if xs = [] then pl else After (last xs)) ys nx"
proof (induction xs arbitrary: pl)
  case Nil
  show ?case by simp
next
  case (Cons a xs)
  show ?case
    by (cases "entry_at hmap a") (auto simp: Cons.IH start_append)
qed

lemma linked_member:
  "linked hmap i pl as nx \<Longrightarrow> a \<in> set as \<Longrightarrow>
   \<exists>e. entry_at hmap a = Some e \<and> entry_bucket hmap e = i"
proof (induction as arbitrary: pl)
  case Nil
  then show ?case by simp
next
  case (Cons b as)
  then show ?case
    by (cases "entry_at hmap b") auto
qed

lemma link_ok_frame:
  "link_ok hmap pl q \<Longrightarrow> (\<And>p. dead hmap p \<Longrightarrow> dead hmap' p) \<Longrightarrow> link_ok hmap' pl q"
  by (cases pl; cases q) auto

lemma linked_frame:
  assumes "linked hmap i pl as nx"
    and "map_buckets_len hmap' = map_buckets_len hmap"
    and "\<And>a. a \<in> set as \<Longrightarrow> map_option links (entry_at hmap' a) = map_option links (entry_at hmap a)"
    and "\<And>p. dead hmap p \<Longrightarrow> dead hmap' p"
  shows "linked hmap' i pl as nx"
  using assms(1,3)
proof (induction as arbitrary: pl)
  case Nil
  show ?case by simp
next
  case (Cons a as)
  from Cons.prems(1) obtain e where
    e: "entry_at hmap a = Some e" "link_ok hmap pl (entry_previous e)"
       "entry_bucket hmap e = i" "entry_next e = start as nx" "linked hmap i (After a) as nx"
    by (cases "entry_at hmap a") auto
  from Cons.prems(2) [of a] e(1) obtain e' where
    e': "entry_at hmap' a = Some e'" "links e' = links e"
    by (cases "entry_at hmap' a") auto
  from Cons.IH [OF e(5)] Cons.prems(2) have "linked hmap' i (After a) as nx" by simp
  with e e' link_ok_frame [OF e(2) assms(4)] assms(2) show ?case
    by (simp add: links_def entry_bucket_def)
qed


subsection \<open>Lookups on a well-formed map\<close>

lemma get_entry_by_hash_loop_linked:
  assumes "linked hmap i pl as None"
    and "set as \<subseteq> A"
    and "\<forall>j<n. \<exists>a\<in>A. entries ! j = Some a"
  shows "\<exists>r. get_entry_by_hash_loop hmap key_hash (start as None) entries n = Some r
           \<and> (\<forall>es n'. r = Inr (es, n') \<longrightarrow> (\<forall>j<n'. \<exists>a\<in>A. es ! j = Some a))"
  using assms
proof (induction as arbitrary: pl entries n)
  case Nil
  then show ?case by (simp add: get_entry_by_hash_loop.simps)
next
  case (Cons a as)
  from Cons.prems(1) obtain e where
    e: "entry_at hmap a = Some e" "entry_next e = start as None" "linked hmap i (After a) as None"
    by (cases "entry_at hmap a") auto
  from Cons.prems(2) have sub: "set as \<subseteq> A" and a: "a \<in> A" by simp_all
  show ?case
  proof (cases "entry_key_hash e = key_hash")
    case False
    from Cons.IH [OF e(3) sub Cons.prems(3)] False e show ?thesis
      by (subst get_entry_by_hash_loop.simps) simp
  next
    case True
    show ?thesis
    proof (cases "n < length entries")
      case False
      with True e show ?thesis
        by (subst get_entry_by_hash_loop.simps) simp
    next
      case room: True
      have "\<forall>j<Suc n. \<exists>b\<in>A. entries[n := Some a] ! j = Some b"
        using Cons.prems(3) a room by (auto simp: nth_list_update less_Suc_eq)
      from Cons.IH [OF e(3) sub this] True room e show ?thesis
        by (subst get_entry_by_hash_loop.simps) simp
    qed
  qed
qed

lemma get_entry_by_key_loop_found:
  "get_entry_by_key_loop hmap key entries entries_count i = Inr (Some a) \<Longrightarrow>
   \<exists>j<entries_count. entries ! j = Some a"
proof (induction hmap key entries entries_count i rule: get_entry_by_key_loop.induct)
  case (1 hmap key entries entries_count i)
  from "1.prems" have in_range: "i < entries_count" "i < length entries"
    by (subst (asm) get_entry_by_key_loop.simps; simp split: if_splits)+
  with "1.prems" obtain b e where
    b: "entries ! i = Some b" "entry_at hmap b = Some e"
    by (subst (asm) get_entry_by_key_loop.simps) (auto split: option.splits)
  show ?case
  proof (cases "anon_data_match (entry_key e) key")
    case True
    with "1.prems" in_range b have "a = b"
      by (subst (asm) get_entry_by_key_loop.simps) simp
    with in_range b show ?thesis by auto
  next
    case False
    with "1.prems" in_range b have
      "get_entry_by_key_loop hmap key entries entries_count (Suc i) = Inr (Some a)"
      by (subst (asm) get_entry_by_key_loop.simps) simp
    from "1.IH" [OF in_range b False this] show ?thesis .
  qed
qed

lemma get_bucket_by_hash_inv:
  assumes "hmap_inv hmap" and "map_buckets_len hmap \<noteq> 0"
  shows "get_bucket_by_hash hmap key_hash = Inr (unat (key_hash mod map_buckets_len hmap))"
    and "unat (key_hash mod map_buckets_len hmap) < length (map_buckets hmap)"
proof -
  from assms(2) have "key_hash mod map_buckets_len hmap < map_buckets_len hmap"
    by (simp add: word_mod_less_divisor word_greater_zero_iff)
  then have "unat (key_hash mod map_buckets_len hmap) < unat (map_buckets_len hmap)"
    by (simp add: word_less_nat_alt)
  with assms(1) show *: "unat (key_hash mod map_buckets_len hmap) < length (map_buckets hmap)"
    by (simp add: hmap_inv_def)
  with assms(2) show "get_bucket_by_hash hmap key_hash = Inr (unat (key_hash mod map_buckets_len hmap))"
    by (simp add: get_bucket_by_hash_def)
qed

lemma get_bucket_by_hash_Inr:
  "get_bucket_by_hash hmap key_hash = Inr b \<Longrightarrow>
   map_buckets_len hmap \<noteq> 0 \<and> b = unat (key_hash mod map_buckets_len hmap)
   \<and> b < length (map_buckets hmap)"
  by (auto simp: get_bucket_by_hash_def Let_def split: if_splits)

text \<open>
  On a well-formed map a lookup returns, and an entry it finds is a member of the list
  of the key's bucket.
\<close>

lemma get_entry_by_key_inv:
  assumes inv: "hmap_inv hmap"
  shows "\<exists>r. get_entry_by_key hmap key = Some r
           \<and> (\<forall>a. r = Inr (Some a) \<longrightarrow>
                 (\<exists>i as. i < length (map_buckets hmap) \<and> bucket_ok hmap i as \<and> a \<in> set as))"
proof (cases "get_bucket_by_hash hmap (map_hash hmap key)")
  case (Inl f)
  then show ?thesis
    by (simp add: get_entry_by_key_def get_entry_by_hash_def)
next
  case (Inr b)
  from get_bucket_by_hash_Inr [OF Inr] have b: "b < length (map_buckets hmap)" by simp
  with inv obtain as where ok: "bucket_ok hmap b as"
    by (auto simp: hmap_inv_def)
  then have head: "map_buckets hmap ! b = start as None" and l: "linked hmap b Head as None"
    by (simp_all add: bucket_ok_def)
  have "\<forall>j<0::nat. \<exists>a\<in>set as. replicate MAX_COLLISIONS None ! j = Some a" by simp
  from get_entry_by_hash_loop_linked [OF l subset_refl this, of "map_hash hmap key"]
  obtain r where
    r: "get_entry_by_hash_loop hmap (map_hash hmap key) (start as None)
          (replicate MAX_COLLISIONS None) 0 = Some r"
       "\<And>es n'. r = Inr (es, n') \<Longrightarrow> \<forall>j<n'. \<exists>a\<in>set as. es ! j = Some a"
    by blast
  show ?thesis
  proof (cases r)
    case (Inl f)
    with r(1) Inr head show ?thesis
      by (simp add: get_entry_by_key_def get_entry_by_hash_def)
  next
    case collected: (Inr p)
    obtain es n' where p: "p = (es, n')" by (cases p)
    have lookup: "get_entry_by_key hmap key = Some (get_entry_by_key_loop hmap key es n' 0)"
      using r(1) Inr head collected p by (simp add: get_entry_by_key_def get_entry_by_hash_def)
    have "a \<in> set as" if "get_entry_by_key_loop hmap key es n' 0 = Inr (Some a)" for a
    proof -
      from get_entry_by_key_loop_found [OF that] obtain j where "j < n'" "es ! j = Some a"
        by blast
      with r(2) [of es n'] collected p show ?thesis by auto
    qed
    with lookup b ok show ?thesis by auto
  qed
qed


subsection \<open>What the writes do to the heap\<close>

lemma entry_at_buckets_update [simp]:
  "entry_at (hmap\<lparr>map_buckets := bs\<rparr>) a = entry_at hmap a"
  by (simp add: entry_at_def)

lemma dead_buckets_update [simp]: "dead (hmap\<lparr>map_buckets := bs\<rparr>) p = dead hmap p"
  by (simp add: dead_def)

lemma entry_bucket_cong:
  "map_buckets_len hmap' = map_buckets_len hmap \<Longrightarrow> entry_bucket hmap' e = entry_bucket hmap e"
  by (simp add: entry_bucket_def)

lemma destroy_entry_Inr:
  assumes "destroy_entry hmap a = Inr hmap'"
  shows "entry_at hmap' b = (if b = a then None else entry_at hmap b)"
    and "map_buckets hmap' = map_buckets hmap"
    and "map_buckets_len hmap' = map_buckets_len hmap"
    and "dead hmap' a"
    and "dead hmap p \<Longrightarrow> dead hmap' p"
proof -
  from assms obtain e where e: "entry_at hmap a = Some e"
    and heap: "map_heap hmap' = (map_heap hmap)[a := None]"
    and rest: "map_buckets hmap' = map_buckets hmap" "map_buckets_len hmap' = map_buckets_len hmap"
    by (auto simp: destroy_entry_def split: option.splits)
  from entry_at_Some_less [OF e] have a: "a < length (map_heap hmap)" by simp
  show "entry_at hmap' b = (if b = a then None else entry_at hmap b)"
    using a by (simp add: entry_at_def heap)
  show "map_buckets hmap' = map_buckets hmap" "map_buckets_len hmap' = map_buckets_len hmap"
    by (fact rest)+
  show "dead hmap' a" using a by (simp add: dead_def heap)
  show "dead hmap' p" if "dead hmap p"
    using that by (cases "p = a") (simp_all add: dead_def heap)
qed

lemma entry_store_facts:
  assumes "entry_at hmap a = Some e"
  shows "entry_at (entry_store hmap a e') b = (if b = a then Some e' else entry_at hmap b)"
    and "map_buckets (entry_store hmap a e') = map_buckets hmap"
    and "map_buckets_len (entry_store hmap a e') = map_buckets_len hmap"
    and "dead (entry_store hmap a e') p = dead hmap p"
proof -
  from entry_at_Some_less [OF assms] have a: "a < length (map_heap hmap)" "map_heap hmap ! a = Some e"
    by simp_all
  show "entry_at (entry_store hmap a e') b = (if b = a then Some e' else entry_at hmap b)"
    using a by (simp add: entry_at_entry_store)
  show "map_buckets (entry_store hmap a e') = map_buckets hmap"
    "map_buckets_len (entry_store hmap a e') = map_buckets_len hmap"
    by (simp_all add: entry_store_def)
  show "dead (entry_store hmap a e') p = dead hmap p"
    using a by (cases "p = a") (simp_all add: dead_def entry_store_def)
qed

subsection \<open>Changing one end of a list\<close>

lemma linked_new_previous:
  assumes "linked hmap i pl (n # zs) nx"
    and "entry_at hmap n = Some ne"
    and "entry_at hmap' n = Some (ne\<lparr>entry_previous := q\<rparr>)"
    and "link_ok hmap' pl' q"
    and "map_buckets_len hmap' = map_buckets_len hmap"
    and "\<And>a. a \<in> set zs \<Longrightarrow> map_option links (entry_at hmap' a) = map_option links (entry_at hmap a)"
    and "\<And>p. dead hmap p \<Longrightarrow> dead hmap' p"
  shows "linked hmap' i pl' (n # zs) nx"
proof -
  from assms(1,2) have "linked hmap i (After n) zs nx" "entry_bucket hmap ne = i"
    "entry_next ne = start zs nx"
    by simp_all
  with linked_frame [OF this(1) assms(5,6,7)] assms(3,4,5) show ?thesis
    by (simp add: entry_bucket_def)
qed

lemma linked_new_next:
  assumes "linked hmap i pl (xs @ [p]) nx"
    and "entry_at hmap p = Some pe"
    and "entry_at hmap' p = Some (pe\<lparr>entry_next := nx'\<rparr>)"
    and "map_buckets_len hmap' = map_buckets_len hmap"
    and "\<And>a. a \<in> set xs \<Longrightarrow> map_option links (entry_at hmap' a) = map_option links (entry_at hmap a)"
    and "\<And>p. dead hmap p \<Longrightarrow> dead hmap' p"
  shows "linked hmap' i pl (xs @ [p]) nx'"
proof -
  from assms(1) have xs: "linked hmap i pl xs (Some p)"
    and p: "linked hmap i (if xs = [] then pl else After (last xs)) [p] nx"
    by (simp_all add: linked_append)
  from linked_frame [OF xs assms(4,5,6)] have "linked hmap' i pl xs (Some p)" .
  moreover from p assms(2) have
    "link_ok hmap (if xs = [] then pl else After (last xs)) (entry_previous pe)"
    "entry_bucket hmap pe = i"
    by simp_all
  with assms(3,4) link_ok_frame [OF this(1) assms(6)]
  have "linked hmap' i (if xs = [] then pl else After (last xs)) [p] nx'"
    by (simp add: entry_bucket_def)
  ultimately show ?thesis by (simp add: linked_append)
qed

subsection \<open>Popping the head of a bucket\<close>

lemma other_bucket_disjoint:
  assumes "bucket_ok hmap i as" and "bucket_ok hmap j bs" and "i \<noteq> j"
  shows "set as \<inter> set bs = {}"
proof -
  have False if "a \<in> set as" "a \<in> set bs" for a
  proof -
    from assms(1) that(1) obtain e where "entry_at hmap a = Some e" "entry_bucket hmap e = i"
      by (auto simp: bucket_ok_def dest: linked_member)
    moreover from assms(2) that(2) obtain e' where "entry_at hmap a = Some e'" "entry_bucket hmap e' = j"
      by (auto simp: bucket_ok_def dest: linked_member)
    ultimately show False using assms(3) by simp
  qed
  then show ?thesis by auto
qed

lemma bucket_ok_frame:
  assumes "bucket_ok hmap j as"
    and "map_buckets hmap' ! j = map_buckets hmap ! j"
    and "map_buckets_len hmap' = map_buckets_len hmap"
    and "\<And>a. a \<in> set as \<Longrightarrow> map_option links (entry_at hmap' a) = map_option links (entry_at hmap a)"
    and "\<And>p. dead hmap p \<Longrightarrow> dead hmap' p"
  shows "bucket_ok hmap' j as"
proof -
  from assms(1) have "linked hmap j Head as None" by (simp add: bucket_ok_def)
  from linked_frame [OF this assms(3,4,5)] assms(1,2) show ?thesis
    by (simp add: bucket_ok_def)
qed

lemma pop_head_inv:
  assumes inv: "hmap_inv hmap"
    and i: "i < length (map_buckets hmap)"
    and ok: "bucket_ok hmap i (a # bs)"
    and e: "entry_at hmap a = Some e"
    and d: "destroy_entry (hmap\<lparr>map_buckets := (map_buckets hmap)[i := entry_next e]\<rparr>) a
              = Inr hmap'"
  shows "hmap_inv hmap'" and "bucket_ok hmap' i bs"
proof -
  note after = destroy_entry_Inr [OF d]
  have at': "entry_at hmap' b = (if b = a then None else entry_at hmap b)" for b
    using after(1) by simp
  have buckets': "map_buckets hmap' = (map_buckets hmap)[i := entry_next e]"
    and len': "map_buckets_len hmap' = map_buckets_len hmap"
    using after(2,3) by simp_all
  have dead': "dead hmap' p" if "dead hmap p" for p
    using after(5) [of p] that by simp
  from ok e have next_e: "entry_next e = start bs None"
    and tail: "linked hmap i (After a) bs None"
    and dist: "a \<notin> set bs" "distinct bs"
    by (simp_all add: bucket_ok_def)
  have same: "map_option links (entry_at hmap' b) = map_option links (entry_at hmap b)"
    if "b \<noteq> a" for b
    using that by (simp add: at')
  have tail': "linked hmap' i Head bs None"
  proof (cases bs)
    case Nil
    then show ?thesis by simp
  next
    case (Cons n zs)
    with tail obtain ne where ne: "entry_at hmap n = Some ne" "entry_previous ne = Some a"
      by (cases "entry_at hmap n") auto
    from Cons dist have "n \<noteq> a" by auto
    with ne have "entry_at hmap' n = Some (ne\<lparr>entry_previous := Some a\<rparr>)"
      by (simp add: at')
    moreover have "link_ok hmap' Head (Some a)"
      using after(4) by simp
    moreover have "map_option links (entry_at hmap' b) = map_option links (entry_at hmap b)"
      if "b \<in> set zs" for b
      using that dist Cons by (intro same) auto
    ultimately show ?thesis
      using linked_new_previous [OF tail [unfolded Cons] ne(1) _ _ len' _ dead'] Cons
      by blast
  qed
  show bs: "bucket_ok hmap' i bs"
    using tail' dist i next_e by (simp add: bucket_ok_def buckets')
  show "hmap_inv hmap'"
    unfolding hmap_inv_def
  proof (intro conjI allI impI)
    from inv show "length (map_buckets hmap') = unat (map_buckets_len hmap')"
      by (simp add: hmap_inv_def buckets' len')
  next
    fix j assume "j < length (map_buckets hmap')"
    then have j: "j < length (map_buckets hmap)" by (simp add: buckets')
    show "\<exists>as. bucket_ok hmap' j as"
    proof (cases "j = i")
      case True
      with bs show ?thesis by blast
    next
      case False
      from inv j obtain as where as: "bucket_ok hmap j as"
        by (auto simp: hmap_inv_def)
      from other_bucket_disjoint [OF ok as] False have "a \<notin> set as" by auto
      then have "map_option links (entry_at hmap' b) = map_option links (entry_at hmap b)"
        if "b \<in> set as" for b
        using that by (intro same) auto
      from bucket_ok_frame [OF as _ len' this dead'] False show ?thesis
        by (auto simp: buckets')
    qed
  qed
qed


subsection \<open>HMAP\_destroy on a well-formed map\<close>

lemma bucket_ok_head:
  assumes "bucket_ok hmap i as" and "map_buckets hmap ! i = Some a"
  shows "\<exists>bs e. as = a # bs \<and> entry_at hmap a = Some e"
proof (cases as)
  case Nil
  with assms show ?thesis by (simp add: bucket_ok_def)
next
  case (Cons b bs)
  with assms have "b = a" and "linked hmap i Head (a # bs) None"
    by (simp_all add: bucket_ok_def)
  with Cons show ?thesis by (cases "entry_at hmap a") auto
qed

lemma destroy_bucket_loop_inv:
  "hmap_inv hmap \<Longrightarrow> i < length (map_buckets hmap) \<Longrightarrow>
   \<exists>hmap'. destroy_bucket_loop hmap i = Inr hmap' \<and> hmap_inv hmap'"
proof (induction hmap i rule: destroy_bucket_loop.induct)
  case (1 hmap i)
  note inv = \<open>hmap_inv hmap\<close> and i = \<open>i < length (map_buckets hmap)\<close>
  show ?case
  proof (cases "map_buckets hmap ! i")
    case None
    with inv i show ?thesis by (simp add: destroy_bucket_loop.simps)
  next
    case (Some a)
    from inv i obtain as where "bucket_ok hmap i as" by (auto simp: hmap_inv_def)
    with bucket_ok_head [OF this Some] obtain bs e where
      ok: "bucket_ok hmap i (a # bs)" and e: "entry_at hmap a = Some e"
      by auto
    obtain hmap1 where
      d: "destroy_entry (hmap\<lparr>map_buckets := (map_buckets hmap)[i := entry_next e]\<rparr>) a
            = Inr hmap1"
      using e by (simp add: destroy_entry_def)
    from pop_head_inv(1) [OF inv i ok e d] have inv1: "hmap_inv hmap1" .
    from destroy_entry_Inr(2) [OF d] i have i1: "i < length (map_buckets hmap1)" by simp
    from "1.IH" [OF i Some e d inv1 i1] obtain hmap' where
      "destroy_bucket_loop hmap1 i = Inr hmap'" "hmap_inv hmap'"
      by blast
    with i Some e d show ?thesis
      by (subst destroy_bucket_loop.simps) simp
  qed
qed

lemma HMAP_destroy_loop_inv:
  "hmap_inv hmap \<Longrightarrow> \<exists>hmap'. HMAP_destroy_loop hmap i = Inr hmap'"
proof (induction hmap i rule: HMAP_destroy_loop.induct)
  case (1 hmap i)
  note inv = \<open>hmap_inv hmap\<close>
  show ?case
  proof (cases "i < unat (map_buckets_len hmap)")
    case False
    then show ?thesis by (simp add: HMAP_destroy_loop.simps)
  next
    case True
    with inv have "i < length (map_buckets hmap)" by (simp add: hmap_inv_def)
    from destroy_bucket_loop_inv [OF inv this] obtain hmap1 where
      b: "destroy_bucket_loop hmap i = Inr hmap1" and inv1: "hmap_inv hmap1"
      by blast
    from "1.IH" [OF True b inv1] True b show ?thesis
      by (subst HMAP_destroy_loop.simps) simp
  qed
qed

lemma HMAP_destroy_inv:
  assumes "obj_data ob = Some hmap" and "hmap_inv hmap"
  shows "HMAP_destroy (Some ob) = Inr (HMAP_STATUS_SUCCESS, Some (ob\<lparr>obj_data := None\<rparr>))"
proof -
  from HMAP_destroy_loop_inv [OF assms(2), of 0] obtain hmap' where
    "HMAP_destroy_loop hmap 0 = Inr hmap'"
    by blast
  with assms(1) show ?thesis by (simp add: HMAP_destroy_def)
qed

subsection \<open>HMAP\_create and HMAP\_set\_data keep the map well-formed\<close>

lemma new_map_inv: "hmap_inv (new_map d mallocf freef hashf)"
proof -
  have "bucket_ok (new_map d mallocf freef hashf) i []" if "i < unat (def_map_size d)" for i
    using that by (simp add: bucket_ok_def new_map_def)
  then have "\<exists>as. bucket_ok (new_map d mallocf freef hashf) i as" if "i < unat (def_map_size d)" for i
    using that by blast
  then show ?thesis by (simp add: hmap_inv_def) (simp add: new_map_def)
qed

lemma HMAP_create_inv:
  assumes "HMAP_create hmap_def out_obj = (HMAP_STATUS_SUCCESS, Some ob)"
    and "obj_data ob = Some hmap"
  shows "hmap_inv hmap"
  using assms
  by (auto simp: HMAP_create_def new_map_inv split: option.splits if_splits)

lemma hmap_inv_frame:
  assumes "hmap_inv hmap"
    and "map_buckets hmap' = map_buckets hmap"
    and "map_buckets_len hmap' = map_buckets_len hmap"
    and "\<And>a. map_option links (entry_at hmap' a) = map_option links (entry_at hmap a)"
    and "\<And>p. dead hmap p \<Longrightarrow> dead hmap' p"
  shows "hmap_inv hmap'"
  unfolding hmap_inv_def
proof (intro conjI allI impI)
  from assms(1,2,3) show "length (map_buckets hmap') = unat (map_buckets_len hmap')"
    by (simp add: hmap_inv_def)
next
  fix i assume "i < length (map_buckets hmap')"
  with assms(1,2) obtain as where "bucket_ok hmap i as" by (auto simp: hmap_inv_def)
  from bucket_ok_frame [OF this _ assms(3,4,5)] assms(2) show "\<exists>as. bucket_ok hmap' i as"
    by auto
qed

lemma set_entry_data_inv:
  assumes "hmap_inv hmap" and "set_entry_data hmap a data = Inr hmap'"
  shows "hmap_inv hmap'"
proof -
  from assms(2) obtain e hmap1 where e: "entry_at hmap a = Some e"
    and hmap': "hmap' = entry_store hmap1 a (e\<lparr>entry_data := copy_anon_data data\<rparr>)"
    and hmap1: "map_heap hmap1 = map_heap hmap" "map_buckets hmap1 = map_buckets hmap"
               "map_buckets_len hmap1 = map_buckets_len hmap"
    by (auto simp: set_entry_data_def Let_def split: option.splits if_splits)
  from entry_at_Some_less [OF e] hmap1(1) have e1: "entry_at hmap1 a = Some e"
    by (simp add: entry_at_def)
  note after = entry_store_facts [OF e1, of "e\<lparr>entry_data := copy_anon_data data\<rparr>"]
  have at1: "entry_at hmap1 b = entry_at hmap b" for b
    using hmap1(1) by (simp add: entry_at_def)
  have dead1: "dead hmap1 p = dead hmap p" for p
    using hmap1(1) by (simp add: dead_def)
  show ?thesis
  proof (rule hmap_inv_frame [OF assms(1)])
    show "map_buckets hmap' = map_buckets hmap" "map_buckets_len hmap' = map_buckets_len hmap"
      using after(2,3) hmap1 by (simp_all add: hmap')
    show "map_option links (entry_at hmap' b) = map_option links (entry_at hmap b)" for b
      using after(1) [of b] e at1 by (simp add: hmap' links_def)
    show "dead hmap' p" if "dead hmap p" for p
      using that after(4) [of p] dead1 by (simp add: hmap')
  qed
qed


lemma create_entry_facts:
  assumes "create_entry hmap key data = (hmap1, a)"
  shows "a = length (map_heap hmap)"
    and "\<exists>e0. entry_at hmap1 a = Some e0 \<and> entry_previous e0 = None \<and> entry_next e0 = None
              \<and> entry_key_hash e0 = map_hash hmap key"
    and "c \<noteq> a \<Longrightarrow> entry_at hmap1 c = entry_at hmap c"
    and "map_buckets hmap1 = map_buckets hmap"
    and "map_buckets_len hmap1 = map_buckets_len hmap"
    and "dead hmap1 p = dead hmap p"
proof -
  from assms have a: "a = length (map_heap hmap)"
    and heap: "\<exists>e0. map_heap hmap1 = map_heap hmap @ [Some e0] \<and> entry_previous e0 = None
                  \<and> entry_next e0 = None \<and> entry_key_hash e0 = map_hash hmap key"
    and rest: "map_buckets hmap1 = map_buckets hmap" "map_buckets_len hmap1 = map_buckets_len hmap"
    by (auto simp: create_entry_def Let_def)
  from heap obtain e0 where e0: "map_heap hmap1 = map_heap hmap @ [Some e0]"
    "entry_previous e0 = None" "entry_next e0 = None" "entry_key_hash e0 = map_hash hmap key"
    by blast
  show "a = length (map_heap hmap)" by (fact a)
  show "\<exists>e0. entry_at hmap1 a = Some e0 \<and> entry_previous e0 = None \<and> entry_next e0 = None
              \<and> entry_key_hash e0 = map_hash hmap key"
    using e0 a by (simp add: entry_at_def)
  show "entry_at hmap1 c = entry_at hmap c" if "c \<noteq> a"
    using that a e0(1) by (simp add: entry_at_def nth_append)
  show "map_buckets hmap1 = map_buckets hmap" "map_buckets_len hmap1 = map_buckets_len hmap"
    by (fact rest)+
  show "dead hmap1 p = dead hmap p"
    using e0(1) by (auto simp: dead_def nth_append)
qed

lemma push_entry_inv:
  assumes inv: "hmap_inv hmap" and push: "push_entry hmap key data = Inr (hmap', a)"
  shows "hmap_inv hmap'"
proof -
  obtain hmap1 a1 where c: "create_entry hmap key data = (hmap1, a1)"
    by (cases "create_entry hmap key data")
  note created = create_entry_facts [OF c]
  from created(2) obtain e0 where e0: "entry_at hmap1 a1 = Some e0" "entry_previous e0 = None"
    "entry_next e0 = None" "entry_key_hash e0 = map_hash hmap key"
    by blast
  from push c e0(1) obtain b where b: "get_bucket_by_hash hmap1 (entry_key_hash e0) = Inr b"
    by (auto simp: push_entry_def split: sum.splits)
  from get_bucket_by_hash_Inr [OF b] created(4,5) have
    b_less: "b < length (map_buckets hmap)" and
    b_eq: "b = unat (entry_key_hash e0 mod map_buckets_len hmap)"
    by simp_all
  define head where "head = map_buckets hmap ! b"
  define e1 where "e1 = e0\<lparr>entry_next := head\<rparr>"
  define hmap2 where "hmap2 = entry_store hmap1 a1 e1"
  note stored = entry_store_facts [OF e0(1), of e1, folded hmap2_def]
  from inv b_less obtain as where as: "bucket_ok hmap b as" by (auto simp: hmap_inv_def)
  then have head_as: "head = start as None" and l: "linked hmap b Head as None"
    and dist: "distinct as"
    by (simp_all add: bucket_ok_def head_def)
  have fresh: "entry_at hmap a1 = None"
    using created(1) by (simp add: entry_at_def)
  have a1_old: "a1 \<notin> set bs" if "bucket_ok hmap j bs" for j bs
  proof
    assume "a1 \<in> set bs"
    with that obtain e where "entry_at hmap a1 = Some e"
      by (auto simp: bucket_ok_def dest: linked_member)
    with fresh show False by simp
  qed
  have old2: "entry_at hmap2 c = entry_at hmap c" if "c \<noteq> a1" for c
    using that stored(1) [of c] created(3) [of c] by simp
  have new2: "entry_at hmap2 a1 = Some e1"
    using stored(1) [of a1] by simp
  have dead2: "dead hmap2 p = dead hmap p" for p
    using stored(4) [of p] created(6) [of p] by simp
  have len2: "map_buckets_len hmap2 = map_buckets_len hmap"
    and buckets2: "map_buckets hmap2 = map_buckets hmap"
    using stored(2,3) created(4,5) by simp_all
  have e1_ok: "link_ok h Head (entry_previous e1)" "entry_bucket hmap e1 = b"
    "entry_next e1 = start as None" for h
    using e0 b_eq head_as by (simp_all add: e1_def entry_bucket_def)
  show ?thesis
  proof (cases as)
    case Nil
    with head_as have "head = None" by simp
    with push c e0(1) b created(4) have hmap': "hmap' = hmap2\<lparr>map_buckets := (map_buckets hmap2)[b := Some a1]\<rparr>"
      and a: "a = a1"
      by (auto simp: push_entry_def head_def hmap2_def e1_def Let_def)
    have at': "entry_at hmap' c = (if c = a1 then Some e1 else entry_at hmap c)" for c
      using old2 [of c] new2 by (simp add: hmap')
    have len': "map_buckets_len hmap' = map_buckets_len hmap"
      and buckets': "map_buckets hmap' = (map_buckets hmap)[b := Some a1]"
      using len2 buckets2 by (simp_all add: hmap')
    have dead': "dead hmap' p" if "dead hmap p" for p
      using that dead2 [of p] by (simp add: hmap')
    have new_b: "bucket_ok hmap' b [a1]"
      using e1_ok b_less Nil by (simp add: bucket_ok_def at' buckets' entry_bucket_def len')
    show ?thesis
      unfolding hmap_inv_def
    proof (intro conjI allI impI)
      from inv show "length (map_buckets hmap') = unat (map_buckets_len hmap')"
        by (simp add: hmap_inv_def buckets' len')
    next
      fix j assume "j < length (map_buckets hmap')"
      then have j: "j < length (map_buckets hmap)" by (simp add: buckets')
      show "\<exists>bs. bucket_ok hmap' j bs"
      proof (cases "j = b")
        case True
        with new_b show ?thesis by blast
      next
        case False
        from inv j obtain bs where bs: "bucket_ok hmap j bs" by (auto simp: hmap_inv_def)
        have "bucket_ok hmap' j bs"
        proof (rule bucket_ok_frame [OF bs _ len' _ dead'])
          show "map_buckets hmap' ! j = map_buckets hmap ! j"
            using False by (simp add: buckets')
          show "map_option links (entry_at hmap' c) = map_option links (entry_at hmap c)"
            if "c \<in> set bs" for c
            using that a1_old [OF bs] by (auto simp: at')
        qed
        then show ?thesis by blast
      qed
    qed
  next
    case (Cons n zs)
    with head_as have head_n: "head = Some n" by simp
    from l Cons obtain ne where ne: "entry_at hmap n = Some ne"
      by (cases "entry_at hmap n") auto
    from a1_old [OF as] Cons have n_a1: "n \<noteq> a1" by auto
    with ne old2 have ne2: "entry_at hmap2 n = Some ne" by simp
    define hmap3 where "hmap3 = entry_store hmap2 n (ne\<lparr>entry_previous := Some a1\<rparr>)"
    note stored3 = entry_store_facts [OF ne2, of "ne\<lparr>entry_previous := Some a1\<rparr>", folded hmap3_def]
    from push c e0(1) b created(4) head_n ne2 [unfolded hmap2_def e1_def head_def]
    have hmap': "hmap' = hmap3\<lparr>map_buckets := (map_buckets hmap3)[b := Some a1]\<rparr>"
      and a: "a = a1"
      by (auto simp: push_entry_def head_def hmap2_def e1_def hmap3_def Let_def)
    have at': "entry_at hmap' c =
                 (if c = n then Some (ne\<lparr>entry_previous := Some a1\<rparr>)
                  else if c = a1 then Some e1 else entry_at hmap c)" for c
      using stored3(1) [of c] old2 [of c] new2 by (simp add: hmap')
    have len': "map_buckets_len hmap' = map_buckets_len hmap"
      and buckets': "map_buckets hmap' = (map_buckets hmap)[b := Some a1]"
      using stored3(2,3) len2 buckets2 by (simp_all add: hmap')
    have dead': "dead hmap' p" if "dead hmap p" for p
      using that stored3(4) [of p] dead2 [of p] by (simp add: hmap')
    have "linked hmap' b (After a1) (n # zs) None"
    proof (rule linked_new_previous [OF l [unfolded Cons] ne _ _ len' _ dead'])
      show "entry_at hmap' n = Some (ne\<lparr>entry_previous := Some a1\<rparr>)" by (simp add: at')
      show "link_ok hmap' (After a1) (Some a1)" by simp
      show "map_option links (entry_at hmap' c) = map_option links (entry_at hmap c)"
        if "c \<in> set zs" for c
        using that dist Cons a1_old [OF as] by (auto simp: at')
    qed
    then have new_b: "bucket_ok hmap' b (a1 # as)"
      using e1_ok b_less Cons dist a1_old [OF as] n_a1
      by (simp add: bucket_ok_def at' buckets' entry_bucket_def len')
    show ?thesis
      unfolding hmap_inv_def
    proof (intro conjI allI impI)
      from inv show "length (map_buckets hmap') = unat (map_buckets_len hmap')"
        by (simp add: hmap_inv_def buckets' len')
    next
      fix j assume "j < length (map_buckets hmap')"
      then have j: "j < length (map_buckets hmap)" by (simp add: buckets')
      show "\<exists>bs. bucket_ok hmap' j bs"
      proof (cases "j = b")
        case True
        with new_b show ?thesis by blast
      next
        case False
        from inv j obtain bs where bs: "bucket_ok hmap j bs" by (auto simp: hmap_inv_def)
        from other_bucket_disjoint [OF as bs] False Cons have "n \<notin> set bs" by auto
        have "bucket_ok hmap' j bs"
        proof (rule bucket_ok_frame [OF bs _ len' _ dead'])
          show "map_buckets hmap' ! j = map_buckets hmap ! j"
            using False by (simp add: buckets')
          show "map_option links (entry_at hmap' c) = map_option links (entry_at hmap c)"
            if "c \<in> set bs" for c
            using that a1_old [OF bs] \<open>n \<notin> set bs\<close> by (auto simp: at')
        qed
        then show ?thesis by blast
      qed
    qed
  qed
qed


subsection \<open>HMAP\_remove\_entry keeps the map well-formed\<close>

lemma unlink_entry_inner:
  assumes e: "entry_at hmap a = Some e"
    and prev: "entry_previous e = Some p"
    and pe: "entry_at hmap p = Some pe"
    and apart: "entry_next e \<noteq> Some p"
    and u: "unlink_entry hmap a = Inr hmap1"
  shows "entry_at hmap1 p = Some (pe\<lparr>entry_next := entry_next e\<rparr>)
    \<and> (\<forall>n. entry_next e = Some n \<longrightarrow>
          (\<exists>ne. entry_at hmap n = Some ne
              \<and> entry_at hmap1 n = Some (ne\<lparr>entry_previous := Some p\<rparr>)))
    \<and> (\<forall>c. c \<noteq> p \<longrightarrow> entry_next e \<noteq> Some c \<longrightarrow> entry_at hmap1 c = entry_at hmap c)
    \<and> map_buckets hmap1 = map_buckets hmap
    \<and> map_buckets_len hmap1 = map_buckets_len hmap
    \<and> (\<forall>q. dead hmap1 q = dead hmap q)"
proof -
  define hmap0 where "hmap0 = entry_store hmap p (pe\<lparr>entry_next := entry_next e\<rparr>)"
  note stored = entry_store_facts [OF pe, of "pe\<lparr>entry_next := entry_next e\<rparr>", folded hmap0_def]
  show ?thesis
  proof (cases "entry_next e")
    case None
    with u e prev pe have "hmap1 = hmap0"
      by (simp add: unlink_entry_def hmap0_def)
    with stored None show ?thesis by simp
  next
    case (Some m)
    with apart have m_p: "m \<noteq> p" by simp
    from u e prev pe Some obtain me where
      me0: "entry_at hmap0 m = Some me" and
      hmap1: "hmap1 = entry_store hmap0 m (me\<lparr>entry_previous := Some p\<rparr>)"
      by (auto simp: unlink_entry_def hmap0_def Let_def split: option.splits)
    from me0 stored(1) [of m] m_p have me: "entry_at hmap m = Some me" by simp
    note stored1 = entry_store_facts [OF me0, of "me\<lparr>entry_previous := Some p\<rparr>", folded hmap1]
    from stored stored1 Some me m_p show ?thesis by auto
  qed
qed

lemma remove_inv:
  assumes inv: "hmap_inv hmap"
    and i: "i < length (map_buckets hmap)"
    and ok: "bucket_ok hmap i as"
    and mem: "a \<in> set as"
    and u: "unlink_entry hmap a = Inr hmap1"
    and d: "destroy_entry hmap1 a = Inr hmap'"
  shows "hmap_inv hmap'"
proof -
  from mem obtain xs ys where as: "as = xs @ a # ys" by (auto dest: split_list)
  from ok have l: "linked hmap i Head (xs @ a # ys) None" and dist: "distinct (xs @ a # ys)"
    and head: "map_buckets hmap ! i = start (xs @ a # ys) None"
    by (simp_all add: bucket_ok_def as)
  from l have before: "linked hmap i Head xs (Some a)"
    and from_a: "linked hmap i (if xs = [] then Head else After (last xs)) (a # ys) None"
    by (simp_all add: linked_append)
  from from_a obtain e where e: "entry_at hmap a = Some e"
    and prev_ok: "link_ok hmap (if xs = [] then Head else After (last xs)) (entry_previous e)"
    and home: "entry_bucket hmap e = i"
    and next_e: "entry_next e = start ys None"
    and after: "linked hmap i (After a) ys None"
    by (cases "entry_at hmap a") auto
  show ?thesis
  proof (cases xs rule: rev_cases)
    case Nil
    with prev_ok have "entry_previous e = None \<or> (\<exists>p. entry_previous e = Some p \<and> dead hmap p)"
      by (cases "entry_previous e") simp_all
    then have no_prev: "entry_previous e = None"
    proof
      assume "\<exists>p. entry_previous e = Some p \<and> dead hmap p"
      then obtain p where "entry_previous e = Some p" "entry_at hmap p = None"
        by (auto simp: entry_at_None_iff)
      with u e show ?thesis by (simp add: unlink_entry_def)
    qed
    from i inv have "map_buckets_len hmap \<noteq> 0"
      by (auto simp: hmap_inv_def)
    from get_bucket_by_hash_inv(1) [OF inv this, of "entry_key_hash e"] home
    have "get_bucket_by_hash hmap (entry_key_hash e) = Inr i"
      by (simp add: entry_bucket_def)
    with u e no_prev have "hmap1 = hmap\<lparr>map_buckets := (map_buckets hmap)[i := entry_next e]\<rparr>"
      by (simp add: unlink_entry_def)
    with d ok as Nil pop_head_inv(1) [OF inv i _ e] show ?thesis by simp
  next
    case (snoc xs' p)
    with prev_ok have prev: "entry_previous e = Some p" by simp
    from l snoc have "p \<in> set (xs @ a # ys)" by simp
    with linked_member [OF l this] obtain pe where pe: "entry_at hmap p = Some pe" by blast
    from dist snoc have p_a: "p \<noteq> a" and p_ys: "p \<notin> set ys" and a_xs': "a \<notin> set xs'"
      and a_ys: "a \<notin> set ys" and p_xs': "p \<notin> set xs'"
      by auto
    have "entry_next e \<noteq> Some p"
      using next_e p_ys by (cases ys) auto
    from unlink_entry_inner [OF e prev pe this u] have
      unlinked: "entry_at hmap1 p = Some (pe\<lparr>entry_next := entry_next e\<rparr>)"
        "\<And>n. entry_next e = Some n \<Longrightarrow>
           \<exists>ne. entry_at hmap n = Some ne
              \<and> entry_at hmap1 n = Some (ne\<lparr>entry_previous := Some p\<rparr>)"
        "\<And>c. c \<noteq> p \<Longrightarrow> entry_next e \<noteq> Some c \<Longrightarrow> entry_at hmap1 c = entry_at hmap c"
        "map_buckets hmap1 = map_buckets hmap"
        "map_buckets_len hmap1 = map_buckets_len hmap"
        "\<And>q. dead hmap1 q = dead hmap q"
      by blast+
    note destroyed = destroy_entry_Inr [OF d]
    have len': "map_buckets_len hmap' = map_buckets_len hmap"
      and buckets': "map_buckets hmap' = map_buckets hmap"
      using unlinked(4,5) destroyed(2,3) by simp_all
    have dead': "dead hmap' q" if "dead hmap q" for q
      using that unlinked(6) [of q] destroyed(5) [of q] by simp
    have at_p: "entry_at hmap' p = Some (pe\<lparr>entry_next := start ys None\<rparr>)"
      using unlinked(1) destroyed(1) [of p] p_a next_e by simp
    have at_other: "entry_at hmap' c = entry_at hmap c"
      if "c \<noteq> a" "c \<noteq> p" "entry_next e \<noteq> Some c" for c
      using that unlinked(3) [of c] destroyed(1) [of c] by simp
    have first: "linked hmap' i Head (xs' @ [p]) (start ys None)"
    proof (rule linked_new_next [OF before [unfolded snoc] pe at_p len' _ dead'])
      fix c assume c: "c \<in> set xs'"
      with dist snoc have "c \<noteq> a" "c \<noteq> p" "c \<notin> set ys" by auto
      moreover from this(3) next_e have "entry_next e \<noteq> Some c" by (cases ys) auto
      ultimately show "map_option links (entry_at hmap' c) = map_option links (entry_at hmap c)"
        by (simp add: at_other)
    qed
    have second: "linked hmap' i (After p) ys None"
    proof (cases ys)
      case Nil
      then show ?thesis by simp
    next
      case (Cons n zs)
      with next_e have next_n: "entry_next e = Some n" by simp
      from unlinked(2) [OF this] obtain ne where ne: "entry_at hmap n = Some ne"
        "entry_at hmap1 n = Some (ne\<lparr>entry_previous := Some p\<rparr>)"
        by blast
      from Cons a_ys have "n \<noteq> a" by auto
      with ne(2) destroyed(1) [of n] have at_n: "entry_at hmap' n = Some (ne\<lparr>entry_previous := Some p\<rparr>)"
        by simp
      show ?thesis
        unfolding Cons
      proof (rule linked_new_previous [OF after [unfolded Cons] ne(1) at_n _ len' _ dead'])
        show "link_ok hmap' (After p) (Some p)" by simp
        fix c assume "c \<in> set zs"
        with dist Cons snoc have "c \<noteq> a" "c \<noteq> p" "c \<noteq> n" by auto
        with next_n show "map_option links (entry_at hmap' c) = map_option links (entry_at hmap c)"
          by (simp add: at_other)
      qed
    qed
    have "linked hmap' i Head ((xs' @ [p]) @ ys) None"
      by (subst linked_append) (use first second in simp)
    then have "linked hmap' i Head (xs @ ys) None" by (simp only: snoc)
    moreover from dist have "distinct (xs @ ys)" by simp
    moreover from head snoc have "map_buckets hmap' ! i = start (xs @ ys) None"
      by (simp add: buckets' start_append)
    ultimately have this_bucket: "bucket_ok hmap' i (xs @ ys)"
      by (simp only: bucket_ok_def simp_thms)
    show ?thesis
      unfolding hmap_inv_def
    proof (intro conjI allI impI)
      from inv show "length (map_buckets hmap') = unat (map_buckets_len hmap')"
        by (simp add: hmap_inv_def buckets' len')
    next
      fix j assume "j < length (map_buckets hmap')"
      then have j: "j < length (map_buckets hmap)" by (simp add: buckets')
      show "\<exists>bs. bucket_ok hmap' j bs"
      proof (cases "j = i")
        case True
        with this_bucket show ?thesis by blast
      next
        case False
        from inv j obtain bs where bs: "bucket_ok hmap j bs" by (auto simp: hmap_inv_def)
        from other_bucket_disjoint [OF ok bs] False have apart: "set as \<inter> set bs = {}" by simp
        have "bucket_ok hmap' j bs"
        proof (rule bucket_ok_frame [OF bs _ len' _ dead'])
          show "map_buckets hmap' ! j = map_buckets hmap ! j" by (simp add: buckets')
          fix c assume c: "c \<in> set bs"
          with apart have "c \<notin> set as" by auto
          then have "c \<noteq> a" "c \<noteq> p" "c \<notin> set ys" by (auto simp: as snoc)
          moreover from this(3) next_e have "entry_next e \<noteq> Some c" by (cases ys) auto
          ultimately show "map_option links (entry_at hmap' c) = map_option links (entry_at hmap c)"
            by (simp add: at_other)
        qed
        then show ?thesis by blast
      qed
    qed
  qed
qed


subsection \<open>Calls keep the map well-formed\<close>

lemma obj_data_update_same: "obj_data ob = Some hmap \<Longrightarrow> ob\<lparr>obj_data := Some hmap\<rparr> = ob"
  by (cases ob) simp

lemma HMAP_set_data_inv:
  assumes "obj_data ob = Some hmap" and inv: "hmap_inv hmap"
    and set: "HMAP_set_data (Some ob) (Some key) (Some data) = Some (Inr (status, obj'))"
  shows "\<exists>hmap'. obj' = Some (ob\<lparr>obj_data := Some hmap'\<rparr>) \<and> hmap_inv hmap'"
proof -
  from set assms(1) obtain found hmap1 a hmap2 where
    "get_entry_by_key hmap key = Some (Inr found)" and
    placed: "(case found of None \<Rightarrow> push_entry hmap key data | Some a \<Rightarrow> Inr (hmap, a))
               = Inr (hmap1, a)" and
    written: "set_entry_data hmap1 a data = Inr hmap2" and
    obj': "obj' = Some (ob\<lparr>obj_data := Some hmap2\<rparr>)"
    by (auto simp: HMAP_set_data_def split: option.splits sum.splits)
  from placed inv have "hmap_inv hmap1"
    by (cases found) (auto dest: push_entry_inv)
  from set_entry_data_inv [OF this written] obj' show ?thesis by blast
qed

lemma HMAP_remove_entry_inv:
  assumes "obj_data ob = Some hmap" and inv: "hmap_inv hmap"
    and remove: "HMAP_remove_entry (Some ob) (Some key) = Some (Inr (status, obj'))"
  shows "\<exists>hmap'. obj' = Some (ob\<lparr>obj_data := Some hmap'\<rparr>) \<and> hmap_inv hmap'"
proof -
  from get_entry_by_key_inv [OF inv, of key] obtain r where
    r: "get_entry_by_key hmap key = Some r"
       "\<And>a. r = Inr (Some a) \<Longrightarrow>
          \<exists>i as. i < length (map_buckets hmap) \<and> bucket_ok hmap i as \<and> a \<in> set as"
    by blast
  from remove assms(1) r(1) obtain found where found: "r = Inr found"
    by (cases r) (auto simp: HMAP_remove_entry_def)
  show ?thesis
  proof (cases found)
    case None
    with remove assms(1) r(1) found have "obj' = Some ob"
      by (simp add: HMAP_remove_entry_def)
    with obj_data_update_same [OF assms(1)] have "obj' = Some (ob\<lparr>obj_data := Some hmap\<rparr>)"
      by simp
    with inv show ?thesis by blast
  next
    case (Some a)
    with remove assms(1) r(1) found obtain hmap1 hmap2 where
      u: "unlink_entry hmap a = Inr hmap1" and d: "destroy_entry hmap1 a = Inr hmap2" and
      obj': "obj' = Some (ob\<lparr>obj_data := Some hmap2\<rparr>)"
      by (auto simp: HMAP_remove_entry_def split: sum.splits)
    from r(2) found Some obtain i as where
      "i < length (map_buckets hmap)" "bucket_ok hmap i as" "a \<in> set as"
      by blast
    from remove_inv [OF inv this u d] obj' show ?thesis by blast
  qed
qed

lemma do_calls_inv:
  assumes "obj_data ob = Some hmap" and "hmap_inv hmap"
    and "do_calls (Some ob) calls = Some (Inr obj')"
  shows "\<exists>hmap'. obj' = Some (ob\<lparr>obj_data := Some hmap'\<rparr>) \<and> hmap_inv hmap'"
  using assms
proof (induction calls arbitrary: ob hmap)
  case Nil
  then have "obj' = Some (ob\<lparr>obj_data := Some hmap\<rparr>)"
    by (simp add: obj_data_update_same)
  with Nil show ?case by blast
next
  case (Cons c calls)
  from Cons.prems(3) obtain status obj1 where
    first: "do_call (Some ob) c = Some (Inr (status, obj1))" and
    rest: "do_calls obj1 calls = Some (Inr obj')"
    by (auto split: option.splits sum.splits)
  from first Cons.prems(1,2) obtain hmap1 where
    obj1: "obj1 = Some (ob\<lparr>obj_data := Some hmap1\<rparr>)" and inv1: "hmap_inv hmap1"
    by (cases c) (auto dest: HMAP_set_data_inv HMAP_remove_entry_inv)
  from Cons.IH [OF _ inv1 rest [unfolded obj1]] show ?case by simp
qed

text \<open>
  Claim C10, amended. On a map reached from a successful \<^verbatim>\<open>HMAP_create\<close> by set and
  remove calls that returned, \<^verbatim>\<open>HMAP_destroy\<close> succeeds and leaves the handle without a
  map. On a handle without a map (destroyed or never created) a further
  \<^verbatim>\<open>HMAP_destroy\<close>, and get, set, remove, entry count, size and hash with their other
  arguments present, report \<^verbatim>\<open>HMAP_STATUS_MAP_UNINITIALIZED\<close> and change nothing;
  \<^verbatim>\<open>HMAP_key_in_map\<close> reports \<^verbatim>\<open>HMAP_BOOL_FALSE\<close>.
\<close>

theorem destroy_leaves_handle_uninitialized:
  assumes "HMAP_create (Some d) (Some out) = (HMAP_STATUS_SUCCESS, obj0)"
    and "do_calls obj0 calls = Some (Inr obj)"
  shows "(\<exists>ob hmap. obj = Some ob \<and> obj_data ob = Some hmap
            \<and> HMAP_destroy obj = Inr (HMAP_STATUS_SUCCESS, Some (ob\<lparr>obj_data := None\<rparr>)))
    \<and> (\<forall>h. obj_data h = None \<longrightarrow>
          HMAP_destroy (Some h) = Inr (HMAP_STATUS_MAP_UNINITIALIZED, Some h)
          \<and> HMAP_get_data (Some h) (Some key) (Some buf)
              = Some (Inr (HMAP_STATUS_MAP_UNINITIALIZED, Some buf))
          \<and> HMAP_set_data (Some h) (Some key) (Some data)
              = Some (Inr (HMAP_STATUS_MAP_UNINITIALIZED, Some h))
          \<and> HMAP_remove_entry (Some h) (Some key)
              = Some (Inr (HMAP_STATUS_MAP_UNINITIALIZED, Some h))
          \<and> HMAP_get_entry_count (Some h) count_out
              = Inr (HMAP_STATUS_MAP_UNINITIALIZED, count_out)
          \<and> HMAP_get_size (Some h) size_out = Inr (HMAP_STATUS_MAP_UNINITIALIZED, size_out)
          \<and> HMAP_get_hash (Some h) (Some data) (Some hash_out)
              = (HMAP_STATUS_MAP_UNINITIALIZED, Some hash_out)
          \<and> HMAP_key_in_map (Some h) (Some key) = Some (Inr False))"
proof (intro conjI allI impI)
  from assms(1) obtain ob0 hmap0 where
    obj0: "obj0 = Some ob0" "obj_data ob0 = Some hmap0"
    by (auto simp: HMAP_create_def split: option.splits if_splits)
  from HMAP_create_inv [OF assms(1) [unfolded obj0(1)] obj0(2)] have "hmap_inv hmap0" .
  from do_calls_inv [OF obj0(2) this assms(2) [unfolded obj0(1)]] obtain hmap where
    obj: "obj = Some (ob0\<lparr>obj_data := Some hmap\<rparr>)" and inv: "hmap_inv hmap"
    by blast
  have "obj_data (ob0\<lparr>obj_data := Some hmap\<rparr>) = Some hmap" by simp
  from HMAP_destroy_inv [OF this inv] obj
  show "\<exists>ob hmap. obj = Some ob \<and> obj_data ob = Some hmap
          \<and> HMAP_destroy obj = Inr (HMAP_STATUS_SUCCESS, Some (ob\<lparr>obj_data := None\<rparr>))"
    by auto
qed (simp_all add: HMAP_destroy_def HMAP_get_data_def HMAP_set_data_def HMAP_remove_entry_def
       HMAP_get_entry_count_def HMAP_get_size_def HMAP_get_hash_def HMAP_key_in_map_def)

theorem destroy_leaves_handle_uninitialized_witness:
  "HMAP_create (Some (sdbm_def 8)) (Some blank_obj)
     = (HMAP_STATUS_SUCCESS, created (sdbm_def 8))
   \<and> do_calls (created (sdbm_def 8)) [Set_data [97] [49]]
       = Some (Inr (Some \<lparr>obj_data = Some example_map\<rparr>))
   \<and> HMAP_destroy (Some \<lparr>obj_data = Some example_map\<rparr>)
       = Inr (HMAP_STATUS_SUCCESS, Some \<lparr>obj_data = None\<rparr>)
   \<and> HMAP_destroy (Some \<lparr>obj_data = None\<rparr>)
       = Inr (HMAP_STATUS_MAP_UNINITIALIZED, Some \<lparr>obj_data = None\<rparr>)
   \<and> HMAP_get_data (Some \<lparr>obj_data = None\<rparr>) (Some [97]) (Some [])
       = Some (Inr (HMAP_STATUS_MAP_UNINITIALIZED, Some []))
   \<and> HMAP_key_in_map (Some \<lparr>obj_data = None\<rparr>) (Some [97]) = Some (Inr False)"
proof -
  have made: "HMAP_create (Some (sdbm_def 8)) (Some blank_obj)
                = (HMAP_STATUS_SUCCESS, created (sdbm_def 8))"
    by (simp add: created_def created_sdbm_8)
  note reached = example_map_reached
  have none: "obj_data \<lparr>obj_data = None\<rparr> = None" by simp
  from destroy_leaves_handle_uninitialized
         [OF made reached, where key = "[97]" and buf = "[]"]
  have "HMAP_destroy (Some \<lparr>obj_data = Some example_map\<rparr>)
          = Inr (HMAP_STATUS_SUCCESS, Some \<lparr>obj_data = None\<rparr>)"
    and "HMAP_destroy (Some \<lparr>obj_data = None\<rparr>)
          = Inr (HMAP_STATUS_MAP_UNINITIALIZED, Some \<lparr>obj_data = None\<rparr>)"
    and "HMAP_get_data (Some \<lparr>obj_data = None\<rparr>) (Some [97]) (Some [])
          = Some (Inr (HMAP_STATUS_MAP_UNINITIALIZED, Some []))"
    and "HMAP_key_in_map (Some \<lparr>obj_data = None\<rparr>) (Some [97]) = Some (Inr False)"
    using none by auto
  with made reached show ?thesis by simp
qed

text \<open>
  Claim C10 as stated has every other operation report \<^verbatim>\<open>Uninitialized\<close> on a
  destroyed handle. \<^verbatim>\<open>HMAP_key_in_map\<close> returns \<^verbatim>\<open>HMAP_BOOL_FALSE\<close> there, the byte 0,
  where \<^verbatim>\<open>HMAP_STATUS_MAP_UNINITIALIZED\<close> is the byte 4; and a get without a key
  reports \<^verbatim>\<open>HMAP_STATUS_INVALID_ARG\<close>, since the arguments are tested first.
\<close>

theorem key_in_map_on_destroyed_handle_counterexample:
  "(case HMAP_destroy (created (sdbm_def 8)) of
      Inr (status, obj) \<Rightarrow>
        status = HMAP_STATUS_SUCCESS
        \<and> HMAP_key_in_map obj (Some [97]) = Some (Inr False)
        \<and> bool_t8 False \<noteq> status_t8 HMAP_STATUS_MAP_UNINITIALIZED
        \<and> HMAP_get_data obj None (Some []) = Some (Inr (HMAP_STATUS_INVALID_ARG, Some []))
    | Inl f \<Rightarrow> False)"
  by code_simp

end
